theory Spec2Isabelle
  imports Complex_Main
begin

section \<open>Text: Python strings as lists of code points\<close>

text \<open>
  A Python \<open>str\<close> is a sequence of Unicode code points, and \<open>len\<close>, slicing, \<open>strip\<close>,
  \<open>split\<close> and the \<open>re\<close> module all work on code points. A string is therefore a list of
  natural numbers, one per code point; \<open>str\<close> turns an ASCII literal into such a list.
\<close>

type_synonym codepoint = nat
type_synonym pystr = "codepoint list"

definition str :: "string \<Rightarrow> pystr" where
  "str s = map of_char s"

text \<open>
  The characters for which \<open>str.isspace\<close> holds. \<open>str.strip()\<close>, \<open>str.split()\<close> and the
  regular-expression class \<open>\s\<close> (on \<open>str\<close> patterns) all use this set.
\<close>

definition is_space :: "codepoint \<Rightarrow> bool" where
  "is_space c \<longleftrightarrow>
     (9 \<le> c \<and> c \<le> 13) \<or> (28 \<le> c \<and> c \<le> 32) \<or> c = 133 \<or> c = 160 \<or> c = 5760 \<or>
     (8192 \<le> c \<and> c \<le> 8202) \<or> c = 8232 \<or> c = 8233 \<or> c = 8239 \<or> c = 8287 \<or> c = 12288"

text \<open>\<open>s.strip()\<close>: leading and trailing whitespace removed.\<close>

definition lstrip :: "pystr \<Rightarrow> pystr" where
  "lstrip s = dropWhile is_space s"

definition rstrip :: "pystr \<Rightarrow> pystr" where
  "rstrip s = rev (dropWhile is_space (rev s))"

definition strip :: "pystr \<Rightarrow> pystr" where
  "strip s = rstrip (lstrip s)"

section \<open>config.py: the sentence terminator and the emoji pattern\<close>

text \<open>
  \<open>SENTENCE_END = re.compile(r'[.!?;]\s+|\n')\<close>. At one position the pattern matches
  either one of \<open>. ! ? ;\<close> followed by a maximal non-empty run of whitespace (\<open>\s+\<close> is
  greedy and nothing follows it), or a single newline. \<open>SENTENCE_END_match_at\<close> gives the
  length of the match at the head of the text; \<open>SENTENCE_END_search\<close> is
  \<open>SENTENCE_END.search(buffer)\<close>, reduced to what the callers read: \<open>match.end()\<close> of the
  leftmost match, or \<open>None\<close>.
\<close>

definition is_terminator :: "codepoint \<Rightarrow> bool" where
  "is_terminator c \<longleftrightarrow> c = 46 \<or> c = 33 \<or> c = 63 \<or> c = 59"

definition newline :: codepoint where
  "newline = 10"

fun SENTENCE_END_match_at :: "pystr \<Rightarrow> nat option" where
  "SENTENCE_END_match_at [] = None"
| "SENTENCE_END_match_at (c # cs) =
     (if is_terminator c \<and> takeWhile is_space cs \<noteq> [] then Some (Suc (length (takeWhile is_space cs)))
      else if c = newline then Some 1
      else None)"

fun SENTENCE_END_search :: "pystr \<Rightarrow> nat option" where
  "SENTENCE_END_search [] = None"
| "SENTENCE_END_search (c # cs) =
     (case SENTENCE_END_match_at (c # cs) of
        Some n \<Rightarrow> Some n
      | None \<Rightarrow> map_option Suc (SENTENCE_END_search cs))"

text \<open>The character class of \<open>EMOJI_PATTERN\<close>, range by range as it is written.\<close>

definition EMOJI_PATTERN :: "codepoint \<Rightarrow> bool" where
  "EMOJI_PATTERN c \<longleftrightarrow>
     (128512 \<le> c \<and> c \<le> 128591) \<or> (127744 \<le> c \<and> c \<le> 128511) \<or> (128640 \<le> c \<and> c \<le> 128767) \<or>
     (127456 \<le> c \<and> c \<le> 127487) \<or> (9986 \<le> c \<and> c \<le> 10160) \<or> (9410 \<le> c \<and> c \<le> 127569) \<or>
     (129318 \<le> c \<and> c \<le> 129335) \<or> (65536 \<le> c \<and> c \<le> 1114111) \<or>
     (9792 \<le> c \<and> c \<le> 9794) \<or> (9728 \<le> c \<and> c \<le> 11093) \<or>
     c = 8205 \<or> c = 9167 \<or> c = 9193 \<or> c = 8986 \<or> c = 65039 \<or> c = 12336"

section \<open>llm.py: cleaning and sentence extraction\<close>

text \<open>
  \<open>clean_for_tts\<close>: \<open>EMOJI_PATTERN.sub('', text)\<close> deletes every maximal run of emoji
  characters, that is every emoji character; the three \<open>replace\<close> calls delete \<open>*\<close>, \<open>#\<close>
  and the backtick; then \<open>strip()\<close>.
\<close>

definition clean_for_tts :: "pystr \<Rightarrow> pystr" where
  "clean_for_tts text =
     strip (filter (\<lambda>c. c \<noteq> 96) (filter (\<lambda>c. c \<noteq> 35) (filter (\<lambda>c. c \<noteq> 42)
       (filter (\<lambda>c. \<not> EMOJI_PATTERN c) text))))"

text \<open>
  The hand-off queue holds sentence fragments and the end sentinel (\<open>None\<close> in the source).
  \<open>put_nowait\<close> appends at the back.
\<close>

type_synonym queue = "pystr option list"

definition put_nowait :: "queue \<Rightarrow> pystr option \<Rightarrow> queue" where
  "put_nowait q x = q @ [x]"

lemma SENTENCE_END_match_at_bounds:
  "SENTENCE_END_match_at b = Some e \<Longrightarrow> 0 < e \<and> e \<le> length b"
proof (cases b)
  case Nil
  assume "SENTENCE_END_match_at b = Some e"
  with Nil show ?thesis by simp
next
  case (Cons c cs)
  assume m: "SENTENCE_END_match_at b = Some e"
  have "length (takeWhile is_space cs) \<le> length cs"
    by (rule length_takeWhile_le)
  with m Cons show ?thesis
    by (auto split: if_splits)
qed

lemma SENTENCE_END_search_bounds:
  "SENTENCE_END_search b = Some e \<Longrightarrow> 0 < e \<and> e \<le> length b"
proof (induction b arbitrary: e)
  case Nil
  then show ?case by simp
next
  case (Cons c cs)
  show ?case
  proof (cases "SENTENCE_END_match_at (c # cs)")
    case (Some n)
    with Cons.prems have "n = e" by simp
    with Some SENTENCE_END_match_at_bounds show ?thesis by blast
  next
    case None
    with Cons.prems obtain e' where "SENTENCE_END_search cs = Some e'" and "e = Suc e'"
      by auto
    with Cons.IH show ?thesis by auto
  qed
qed

text \<open>
  \<open>extract_sentences(buffer, queue)\<close>: the \<open>while True\<close> loop, one recursive call per
  iteration. Every iteration cuts at least one character off the buffer, which is the
  termination argument. The result is the returned buffer and the queue as the call
  leaves it.
\<close>

function extract_sentences :: "pystr \<Rightarrow> queue \<Rightarrow> pystr \<times> queue" where
  "extract_sentences buffer queue =
     (case SENTENCE_END_search buffer of
        None \<Rightarrow> (buffer, queue)
      | Some end_pos \<Rightarrow>
          (let sentence = strip (take end_pos buffer);
               buffer' = drop end_pos buffer;
               clean = clean_for_tts sentence
           in extract_sentences buffer' (if clean \<noteq> [] then put_nowait queue (Some clean) else queue)))"
  by pat_completeness auto
termination
proof (relation "measure (\<lambda>(buffer, queue). length buffer)")
  show "wf (measure (\<lambda>(buffer, queue). length buffer))" by simp
next
  fix buffer :: pystr and queue :: queue and end_pos sentence buffer' clean
  assume "SENTENCE_END_search buffer = Some end_pos" and "buffer' = drop end_pos buffer"
  then show "((buffer', if clean \<noteq> [] then put_nowait queue (Some clean) else queue), (buffer, queue))
      \<in> measure (\<lambda>(buffer, queue). length buffer)"
    using SENTENCE_END_search_bounds [of buffer end_pos] by (simp, arith)
qed

declare extract_sentences.simps [simp del]

text \<open>
  The producer of the second leg (\<open>_search_llm_tts.llm_producer\<close>) appends every token to
  \<open>sentence_buffer\<close> and calls \<open>extract_sentences\<close> on it; \<open>feed_chunks\<close> is that loop.
  Its \<open>finally\<close> block flushes what is left (\<open>flush_remainder\<close>) and then puts the end
  sentinel. \<open>segment_stream\<close> is the list of fragments on the queue before the sentinel.
\<close>

fun feed_chunks :: "pystr list \<Rightarrow> pystr \<Rightarrow> queue \<Rightarrow> pystr \<times> queue" where
  "feed_chunks [] sentence_buffer queue = (sentence_buffer, queue)"
| "feed_chunks (token # rest) sentence_buffer queue =
     (case extract_sentences (sentence_buffer @ token) queue of
        (sentence_buffer', queue') \<Rightarrow> feed_chunks rest sentence_buffer' queue')"

definition flush_remainder :: "pystr \<Rightarrow> queue \<Rightarrow> queue" where
  "flush_remainder sentence_buffer queue =
     (if strip sentence_buffer \<noteq> [] then
        (let clean = clean_for_tts (strip sentence_buffer)
         in if clean \<noteq> [] then put_nowait queue (Some clean) else queue)
      else queue)"

definition segment_stream :: "pystr list \<Rightarrow> queue" where
  "segment_stream tokens =
     (case feed_chunks tokens [] [] of (sentence_buffer, queue) \<Rightarrow> flush_remainder sentence_buffer queue)"

text \<open>
  \<open>_search_llm_tts.llm_producer\<close> as a whole: the text it accumulates in
  \<open>full_response\<close> and the queue it leaves. An exception raised by \<open>send_text\<close> inside the
  loop ends the loop at that token and runs the same \<open>finally\<close> block, so the queue is
  the one of the tokens handled before it.
\<close>

definition search_llm_producer :: "pystr list \<Rightarrow> pystr \<times> queue" where
  "search_llm_producer tokens = (concat tokens, put_nowait (segment_stream tokens) None)"

section \<open>pipeline.py: the producer of the first leg\<close>

text \<open>\<open>sub in s\<close> on strings.\<close>

fun contains :: "pystr \<Rightarrow> pystr \<Rightarrow> bool" where
  "contains sub [] = (sub = [])"
| "contains sub (c # cs) = (take (length sub) (c # cs) = sub \<or> contains sub cs)"

record producer_state =
  full_response :: pystr
  sentence_buffer :: pystr
  is_search :: bool
  search_detected :: bool
  sentences_queue :: queue

definition producer_init :: producer_state where
  "producer_init = \<lparr>full_response = [], sentence_buffer = [], is_search = False,
     search_detected = False, sentences_queue = []\<rparr>"

text \<open>
  One iteration of the \<open>async for\<close> loop of \<open>llm_producer\<close> (lines 53 to 79), for one token
  yielded by \<open>stream_tokens\<close>. The two decision branches end in \<open>continue\<close>; when neither
  fires, control reaches line 77 with \<open>search_detected\<close> still unset, and nothing is
  buffered.
\<close>

definition llm_producer_step :: "producer_state \<Rightarrow> pystr \<Rightarrow> producer_state" where
  "llm_producer_step st token =
     (let st1 = st\<lparr>full_response := full_response st @ token\<rparr>
      in if \<not> search_detected st1 then
           (if contains (str ''[SEARCH:'') (full_response st1) then
              st1\<lparr>is_search := True, search_detected := True\<rparr>
            else if length (full_response st1) > 80 \<or> SENTENCE_END_search (full_response st1) \<noteq> None then
              (case extract_sentences (full_response st1) (sentences_queue st1) of
                 (buffer, queue) \<Rightarrow>
                   st1\<lparr>is_search := False, sentence_buffer := buffer, sentences_queue := queue,
                        search_detected := True\<rparr>)
            else st1)
         else if \<not> is_search st1 then
           (case extract_sentences (sentence_buffer st1 @ token) (sentences_queue st1) of
              (buffer, queue) \<Rightarrow> st1\<lparr>sentence_buffer := buffer, sentences_queue := queue\<rparr>)
         else st1)"

text \<open>The \<open>finally\<close> block (lines 80 to 89).\<close>

definition llm_producer_finally :: "producer_state \<Rightarrow> producer_state" where
  "llm_producer_finally st =
     (let queue = (if \<not> is_search st then flush_remainder (sentence_buffer st) (sentences_queue st)
                   else sentences_queue st)
      in st\<lparr>sentences_queue := put_nowait queue None, search_detected := True\<rparr>)"

definition llm_producer :: "pystr list \<Rightarrow> producer_state" where
  "llm_producer tokens = llm_producer_finally (foldl llm_producer_step producer_init tokens)"

section \<open>search.py\<close>

text \<open>
  \<open>s.split()\<close> without arguments cuts at runs of whitespace and returns no empty word;
  \<open>split_from w s\<close> carries the word being read. \<open>sep.join(ws)\<close> puts the separator
  between the words. \<open>s.strip(chars)\<close> removes leading and trailing characters that
  occur in \<open>chars\<close>. \<open>s.lower()\<close> applies the case mapping of the Python runtime,
  which is not part of the repository: the functions that call it take it as the
  parameter \<open>lower\<close>, and what is proved of them holds for every such mapping.
  \<open>ascii_lower\<close> is \<open>str.lower\<close> on ASCII text and serves where a concrete text is
  evaluated.
\<close>

fun split_from :: "pystr \<Rightarrow> pystr \<Rightarrow> pystr list" where
  "split_from w [] = (if w = [] then [] else [w])"
| "split_from w (c # cs) =
     (if is_space c then (if w = [] then split_from [] cs else w # split_from [] cs)
      else split_from (w @ [c]) cs)"

definition split :: "pystr \<Rightarrow> pystr list" where
  "split s = split_from [] s"

fun join :: "pystr \<Rightarrow> pystr list \<Rightarrow> pystr" where
  "join sep [] = []"
| "join sep [w] = w"
| "join sep (w # ws) = w @ sep @ join sep ws"

definition ascii_lower :: "pystr \<Rightarrow> pystr" where
  "ascii_lower s = map (\<lambda>c. if 65 \<le> c \<and> c \<le> 90 then c + 32 else c) s"

definition strip_chars :: "pystr \<Rightarrow> pystr \<Rightarrow> pystr" where
  "strip_chars chars s =
     rev (dropWhile (\<lambda>c. c \<in> set chars) (rev (dropWhile (\<lambda>c. c \<in> set chars) s)))"

definition FILLER_WORDS :: "pystr set" where
  "FILLER_WORDS = set (map str
     [''hmm'', ''hm'', ''um'', ''uh'', ''ah'', ''okay'', ''ok'', ''like'', ''yeah'', ''yes'', ''no'',
      ''right'', ''so'', ''well'', ''actually'', ''basically'', ''you know'', ''i mean'',
      ''let me think'', ''wait'', ''hold on'', ''alla'', ''adu'', ''ennu'', ''aanu'',
      ''hmm.'', ''okay.'', ''yeah.'', ''yes.'', ''no.'', ''super'', ''super.''])"

text \<open>
  \<open>clean_for_search\<close>. \<open>is_filler w\<close> is the test of line 36; the loop keeps the words that
  fail it, in order; \<open>filtered_query\<close> is the value of \<open>result\<close> at line 39.
\<close>

definition is_filler :: "(pystr \<Rightarrow> pystr) \<Rightarrow> pystr \<Rightarrow> bool" where
  "is_filler lower w \<longleftrightarrow> strip_chars (str ''.,!?'') (lower w) \<in> FILLER_WORDS"

definition filtered_query :: "(pystr \<Rightarrow> pystr) \<Rightarrow> pystr \<Rightarrow> pystr" where
  "filtered_query lower transcript =
     (let words = split transcript;
          cleaned = filter (\<lambda>w. \<not> is_filler lower w) words
      in strip (join (str '' '') cleaned))"

definition clean_for_search :: "(pystr \<Rightarrow> pystr) \<Rightarrow> pystr \<Rightarrow> pystr" where
  "clean_for_search lower transcript =
     (let result = filtered_query lower transcript
      in if length result < 5 then strip transcript else result)"

text \<open>
  \<open>query_similarity\<close>. The quotient of the two lengths is a Python float, the correctly
  rounded value of the exact quotient; the model keeps the exact quotient as a rational.
\<close>

definition query_similarity :: "(pystr \<Rightarrow> pystr) \<Rightarrow> pystr \<Rightarrow> pystr \<Rightarrow> rat" where
  "query_similarity lower q1 q2 =
     (let w1 = set (split (lower q1));
          w2 = set (split (lower q2))
      in if w1 = {} \<or> w2 = {} then 0
         else of_nat (card (w1 \<inter> w2)) / of_nat (max (card w1) (card w2)))"

text \<open>
  The Jaccard ratio of two word sets and the word set of a query, as the specification
  words them.
\<close>

definition word_set :: "(pystr \<Rightarrow> pystr) \<Rightarrow> pystr \<Rightarrow> pystr set" where
  "word_set lower q = set (split (lower q))"

definition jaccard :: "pystr set \<Rightarrow> pystr set \<Rightarrow> rat" where
  "jaccard a b = (if a = {} \<or> b = {} then 0 else of_nat (card (a \<inter> b)) / of_nat (card (a \<union> b)))"

text \<open>
  \<open>web_search\<close>. The provider (\<open>DDGS().text\<close>) is outside the repository: for a query it
  returns a list of results, each a dictionary, or raises. \<open>web_search_try\<close> is the body of
  the \<open>try\<close> block, with its exceptions as values: the provider's own, and the \<open>KeyError\<close>
  of \<open>r['title']\<close> or \<open>r['body']\<close> on a result without that key. \<open>web_search\<close> adds the
  \<open>except Exception\<close> clause; \<open>exception_text\<close> is \<open>str(e)\<close>.
\<close>

datatype py_exception = ProviderException pystr | KeyError pystr

datatype provider_response = Results "(pystr \<times> pystr) list list" | Failure pystr

definition exception_text :: "py_exception \<Rightarrow> pystr" where
  "exception_text e =
     (case e of ProviderException m \<Rightarrow> m | KeyError k \<Rightarrow> str [CHR 0x27] @ k @ str [CHR 0x27])"

definition format_result :: "(pystr \<times> pystr) list \<Rightarrow> py_exception + pystr" where
  "format_result r =
     (case map_of r (str ''title'') of
        None \<Rightarrow> Inl (KeyError (str ''title''))
      | Some title \<Rightarrow>
          (case map_of r (str ''body'') of
             None \<Rightarrow> Inl (KeyError (str ''body''))
           | Some body \<Rightarrow> Inr (str ''- '' @ title @ str '': '' @ body)))"

fun format_results :: "(pystr \<times> pystr) list list \<Rightarrow> pystr list \<Rightarrow> py_exception + pystr list" where
  "format_results [] formatted = Inr formatted"
| "format_results (r # rs) formatted =
     (case format_result r of
        Inl e \<Rightarrow> Inl e
      | Inr line \<Rightarrow> format_results rs (formatted @ [line]))"

definition web_search_try :: "provider_response \<Rightarrow> py_exception + pystr" where
  "web_search_try response =
     (case response of
        Failure m \<Rightarrow> Inl (ProviderException m)
      | Results results \<Rightarrow>
          if results = [] then Inr (str ''No results found.'')
          else (case format_results results [] of
                  Inl e \<Rightarrow> Inl e
                | Inr formatted \<Rightarrow> Inr (join [newline] formatted)))"

definition web_search :: "(pystr \<Rightarrow> provider_response) \<Rightarrow> pystr \<Rightarrow> py_exception + pystr" where
  "web_search provider query =
     (case web_search_try (provider query) of
        Inr s \<Rightarrow> Inr s
      | Inl e \<Rightarrow> Inr (str ''Search error: '' @ exception_text e))"

section \<open>server.py: the transcript of a turn\<close>


section \<open>tts.py: the synthesis consumer\<close>

text \<open>
  \<open>stream_to_client\<close>. The synthesis service is outside the repository; one run of the
  reader loop meets a sequence of messages from \<open>tts_ws\<close>. A \<open>reader_step\<close> is what one
  iteration meets: the message, whether \<open>cancel_event\<close> is set when line 65 tests it, and
  whether \<open>websocket.send_text\<close> returns (\<open>False\<close>: it raises). The end of the list is
  the end of the iteration of \<open>tts_ws\<close>, by a closed connection or by an exception. The
  events are the \<open>audio_chunk\<close> messages that \<open>websocket.send_text\<close> has sent, in order: a
  call that raises sends nothing. Every exception inside the \<open>try\<close> block, that of
  \<open>send_text\<close> and also one of \<open>connect\<close>, \<open>configure\<close> or \<open>await feeder_task\<close>, is
  caught at line 80, and line 83 returns \<open>chunk_count\<close>, which line 69 has incremented
  before the send of line 70.
\<close>

datatype tts_message = AudioOutput pystr | EventResponse pystr | OtherMessage

record reader_step =
  message :: tts_message
  cancel_set :: bool
  send_ok :: bool

record audio_chunk =
  audio :: pystr
  chunk_num :: nat

fun reader_loop :: "nat \<Rightarrow> reader_step list \<Rightarrow> audio_chunk list \<times> nat" where
  "reader_loop chunk_count [] = ([], chunk_count)"
| "reader_loop chunk_count (s # rest) =
     (if cancel_set s then ([], chunk_count)
      else (case message s of
              AudioOutput a \<Rightarrow>
                (let chunk_count' = chunk_count + 1;
                     event = \<lparr>audio = a, chunk_num = chunk_count'\<rparr>
                 in if send_ok s then
                      (case reader_loop chunk_count' rest of (events, n) \<Rightarrow> (event # events, n))
                    else ([], chunk_count'))
            | EventResponse event_type \<Rightarrow>
                if event_type = str ''final'' then ([], chunk_count)
                else reader_loop chunk_count rest
            | OtherMessage \<Rightarrow> reader_loop chunk_count rest))"

record tts_session =
  connect_ok :: bool
  steps :: "reader_step list"

definition stream_to_client :: "tts_session \<Rightarrow> audio_chunk list \<times> nat" where
  "stream_to_client session =
     (if \<not> connect_ok session then ([], 0) else reader_loop 0 (steps session))"

text \<open>
  \<open>tts_consumer\<close> of the first leg (lines 92 to 100): after the decision it returns at
  once on a search turn or a cancelled one, and calls \<open>stream_to_client\<close> otherwise.
\<close>

definition tts_consumer :: "bool \<Rightarrow> bool \<Rightarrow> tts_session \<Rightarrow> audio_chunk list" where
  "tts_consumer search cancelled session =
     (if search \<or> cancelled then [] else fst (stream_to_client session))"

section \<open>config.py: the conversation history\<close>

datatype role = System | User | Assistant

record message =
  role :: role
  content :: pystr

text \<open>
  \<open>conversation_history\<close> is a module-level list, shared by every turn of the process; it
  starts as the system message alone. The text of \<open>SYSTEM_PROMPT\<close> plays no part in what
  follows and is a parameter.
\<close>

definition conversation_history_init :: "pystr \<Rightarrow> message list" where
  "conversation_history_init system_prompt = [\<lparr>role = System, content = system_prompt\<rparr>]"

text \<open>
  \<open>sanitize_history\<close>: the \<open>while\<close> loop over the index \<open>i\<close>, which either merges
  message \<open>i + 1\<close> into message \<open>i\<close> and pops it (\<open>continue\<close>), or moves on. Each
  iteration shortens the list or brings \<open>i\<close> closer to its end.
\<close>

definition merge_at :: "nat \<Rightarrow> message list \<Rightarrow> message list" where
  "merge_at i h =
     take i h @ [(h ! i)\<lparr>content := content (h ! i) @ str '' '' @ content (h ! (i + 1))\<rparr>] @ drop (i + 2) h"

function sanitize_loop :: "nat \<Rightarrow> message list \<Rightarrow> message list" where
  "sanitize_loop i h =
     (if i < length h then
        (if i + 1 < length h \<and> role (h ! i) = role (h ! (i + 1)) then sanitize_loop i (merge_at i h)
         else sanitize_loop (i + 1) h)
      else h)"
  by pat_completeness auto
termination
  by (relation "measure (\<lambda>(i, h). length h - i)") (auto simp: merge_at_def)

declare sanitize_loop.simps [simp del]

definition sanitize_history :: "message list \<Rightarrow> message list" where
  "sanitize_history h = (if length h < 2 then h else sanitize_loop 1 h)"

section \<open>pipeline.py: one turn\<close>

text \<open>
  \<open>re.search(r'\[SEARCH:\s*(.+?)\]', full_response)\<close>, reduced to \<open>group(1)\<close> of the match.
  After the marker, \<open>\s*\<close> takes the longest run of whitespace first and gives characters
  back when the rest fails; \<open>(.+?)\<close> takes at least one character other than a newline and
  stops at the first closing bracket after it.
\<close>

fun lazy_until_bracket :: "pystr \<Rightarrow> pystr \<Rightarrow> pystr option" where
  "lazy_until_bracket acc [] = None"
| "lazy_until_bracket acc (c # cs) =
     (if c = 93 then Some acc
      else if c = newline then None
      else lazy_until_bracket (acc @ [c]) cs)"

fun group_at :: "pystr \<Rightarrow> pystr option" where
  "group_at [] = None"
| "group_at (c # cs) = (if c = newline then None else lazy_until_bracket [c] cs)"

fun directive_after_marker :: "pystr \<Rightarrow> pystr option" where
  "directive_after_marker [] = None"
| "directive_after_marker (c # cs) =
     (if is_space c then
        (case directive_after_marker cs of
           Some query \<Rightarrow> Some query
         | None \<Rightarrow> group_at (c # cs))
      else group_at (c # cs))"

fun search_directive :: "pystr \<Rightarrow> pystr option" where
  "search_directive [] = None"
| "search_directive (c # cs) =
     (if take 8 (c # cs) = str ''[SEARCH:'' then
        (case directive_after_marker (drop 8 (c # cs)) of
           Some query \<Rightarrow> Some query
         | None \<Rightarrow> search_directive cs)
      else search_directive cs)"

text \<open>The content of the scratch user message of lines 162 to 168.\<close>

definition search_prompt :: "pystr \<Rightarrow> pystr \<Rightarrow> pystr" where
  "search_prompt search_query search_results =
     str ''Here are the web search results for '' @ str [CHR 0x27] @ search_query @ str [CHR 0x27]
       @ str '':'' @ [newline, newline]
       @ search_results @ [newline, newline]
       @ str ''Synthesize a comprehensive and natural answer for speaking aloud. ''
       @ str ''Do NOT say '' @ str [CHR 0x27] @ str ''Here is what I found'' @ str [CHR 0x27]
       @ str ''. Just give the detailed answer.''"

text \<open>
  What one call of \<open>run\<close> meets from outside: the transcript, the tokens the generation
  service yields on the first leg, the tokens it yields on the second leg as a function
  of the messages \<open>stream_tokens\<close> is called with there (they hold the search results),
  the search provider, whether the join of the speculative search times out or fails,
  the case mapping \<open>str.lower\<close> of the runtime, what each test of \<open>cancel_event\<close> in
  \<open>run\<close> finds (lines 111, 154, 179 and 188), and whether an exception reaches \<open>run\<close>
  at one of its \<open>await\<close>s.
  \<open>run\<close> has no handler of its own: an exception of \<open>websocket.send_text\<close>, or the
  \<open>CancelledError\<close> of \<open>current_task.cancel()\<close> in server.py, leaves \<open>run\<close> at that
  \<open>await\<close>, and server.py catches it (lines 98 to 103). The \<open>await\<close>s are grouped by the
  state of the history at them: \<open>AtFirstLeg\<close> is lines 36 to 109, \<open>AtSearch\<close> lines 125
  to 158, \<open>AtSecondLeg\<close> lines 170 to 174, \<open>AtFinish\<close> line 186, \<open>AtDone\<close> line 202.
\<close>

datatype suspension = AtFirstLeg | AtSearch | AtSecondLeg | AtFinish | AtDone

record turn_env =
  transcript :: pystr
  leg1_tokens :: "pystr list"
  leg2_tokens :: "message list \<Rightarrow> pystr list"
  provider :: "pystr \<Rightarrow> provider_response"
  speculative_timeout :: bool
  lower_case :: "pystr \<Rightarrow> pystr"
  cancel_after_leg1 :: bool
  cancel_after_search :: bool
  cancel_after_leg2 :: bool
  cancel_at_finish :: bool
  interrupted :: "suspension option"

datatype outcome = Committed | Cancelled | NoOp | Raised

text \<open>
  Lines 131 to 149: the search results of the turn. The speculative task runs
  \<open>web_search(clean_query)\<close>. The threshold \<open>0.4\<close> is compared with a quotient of two small
  integers, so the comparison of the floats agrees with that of the exact values.
\<close>

definition resolve_search :: "turn_env \<Rightarrow> pystr \<Rightarrow> pystr \<Rightarrow> py_exception + pystr" where
  "resolve_search env clean_query search_query =
     (let similarity = query_similarity (lower_case env) clean_query search_query
      in if similarity \<ge> 4 / 10 then
           (if speculative_timeout env then web_search (provider env) search_query
            else web_search (provider env) clean_query)
         else web_search (provider env) search_query)"

text \<open>
  Lines 185 to 205. \<open>conversation_history.pop()\<close> removes the last message; the list is
  never empty where \<open>run\<close> pops.
\<close>

definition finish_up :: "turn_env \<Rightarrow> message list \<Rightarrow> pystr \<Rightarrow> outcome \<times> message list" where
  "finish_up env h response =
     (if interrupted env = Some AtFinish then (Raised, h)
      else if cancel_at_finish env then (Cancelled, butlast h)
      else if response = [] then (NoOp, butlast h)
      else (let h' = h @ [\<lparr>role = Assistant, content = response\<rparr>]
            in if interrupted env = Some AtDone then (Raised, h') else (Committed, h')))"

text \<open>
  \<open>run\<close>: the outcome of the call and \<open>conversation_history\<close> as the call leaves it.
\<close>

definition run :: "turn_env \<Rightarrow> message list \<Rightarrow> outcome \<times> message list" where
  "run env h0 =
     (let h1 = sanitize_history h0 @ [\<lparr>role = User, content = transcript env\<rparr>]
      in if interrupted env = Some AtFirstLeg then (Raised, h1)
         else
          (let st = llm_producer (leg1_tokens env);
               clean_query = clean_for_search (lower_case env) (transcript env)
           in if cancel_after_leg1 env then (Cancelled, butlast h1)
              else if is_search st then
                (case search_directive (full_response st) of
                   None \<Rightarrow> finish_up env h1 (full_response st)
                 | Some query \<Rightarrow>
                     (let search_query = strip query
                      in if interrupted env = Some AtSearch then (Raised, h1)
                         else
                          (case resolve_search env clean_query search_query of
                             Inl e \<Rightarrow> (Raised, h1)
                           | Inr search_results \<Rightarrow>
                               if cancel_after_search env then (Cancelled, butlast h1)
                               else
                                (let h2 = h1 @ [\<lparr>role = Assistant, content = full_response st\<rparr>,
                                                \<lparr>role = User, content = search_prompt search_query search_results\<rparr>]
                                 in if interrupted env = Some AtSecondLeg then (Raised, h2)
                                    else
                                     (let response = fst (search_llm_producer (leg2_tokens env h2));
                                          h3 = butlast (butlast h2)
                                      in if cancel_after_leg2 env then (Cancelled, butlast h3)
                                         else finish_up env h3 response)))))
              else finish_up env h1 (full_response st)))"

text \<open>
  The role sequence the docstring of \<open>sanitize_history\<close> speaks of: the system message,
  then user and assistant in turn.
\<close>

fun alternating_from :: "role \<Rightarrow> role list \<Rightarrow> bool" where
  "alternating_from expected [] = True"
| "alternating_from expected (r # rs) =
     (r = expected \<and> alternating_from (if expected = User then Assistant else User) rs)"

definition alternates :: "message list \<Rightarrow> bool" where
  "alternates h = (case map role h of [] \<Rightarrow> False | r # rs \<Rightarrow> r = System \<and> alternating_from User rs)"

section \<open>Notions used in the statements\<close>

text \<open>
  A text holds a sentence terminator when a newline occurs in it, or one of \<open>. ! ? ;\<close>
  directly followed by a whitespace character.
\<close>

definition has_sentence_end :: "pystr \<Rightarrow> bool" where
  "has_sentence_end s \<longleftrightarrow>
     (\<exists>p r. s = p @ newline # r) \<or>
     (\<exists>p c w r. s = p @ c # w # r \<and> is_terminator c \<and> is_space w)"


text \<open>
  What one iteration of \<open>extract_sentences\<close> does to the queue with the sentence it cut
  off, and the relation between two states of a segmentation that differ at most in
  leading whitespace of the buffer.
\<close>

definition emit_clean :: "queue \<Rightarrow> pystr \<Rightarrow> queue" where
  "emit_clean q sentence =
     (if clean_for_tts sentence \<noteq> [] then put_nowait q (Some (clean_for_tts sentence)) else q)"

definition same_output :: "pystr \<times> queue \<Rightarrow> pystr \<times> queue \<Rightarrow> bool" where
  "same_output a b \<longleftrightarrow> lstrip (fst a) = lstrip (fst b) \<and> snd a = snd b"


text \<open>
  The state of the first-leg producer while no decision has been taken, and a history
  between two turns: alternating and not ending in a user message.
\<close>

definition undecided :: "producer_state \<Rightarrow> bool" where
  "undecided st \<longleftrightarrow> \<not> search_detected st \<and> \<not> is_search st \<and> sentence_buffer st = [] \<and> sentences_queue st = []"

definition settled :: "message list \<Rightarrow> bool" where
  "settled h \<longleftrightarrow> alternates h \<and> role (last h) \<noteq> User"

text \<open>
  A turn in which nothing is cancelled and no exception reaches \<open>run\<close>: the transcript
  and the tokens of the two legs are given (those of the second leg whatever its
  messages), the provider finds nothing, the text is ASCII.
\<close>

definition plain_turn :: "pystr \<Rightarrow> pystr list \<Rightarrow> pystr list \<Rightarrow> turn_env" where
  "plain_turn t tokens1 tokens2 =
     \<lparr>transcript = t, leg1_tokens = tokens1, leg2_tokens = (\<lambda>messages. tokens2),
      provider = (\<lambda>q. Results []), speculative_timeout = False, lower_case = ascii_lower,
      cancel_after_leg1 = False, cancel_after_search = False, cancel_after_leg2 = False,
      cancel_at_finish = False, interrupted = None\<rparr>"

text \<open>
  A search turn whose provider fails, and whose second generation answers with the
  content of the last message it is given.
\<close>

definition failing_search_turn :: turn_env where
  "failing_search_turn =
     (plain_turn (str ''weather'') [str ''[SEARCH: mumbai weather]''] [])
       \<lparr>provider := (\<lambda>q. Failure (str ''down'')),
        leg2_tokens := (\<lambda>messages. [content (last messages)])\<rparr>"

text \<open>
  The response text of a turn: that of the second leg when the search branch is taken,
  that of the first leg otherwise.
\<close>

definition response_text :: "turn_env \<Rightarrow> message list \<Rightarrow> pystr" where
  "response_text env h0 =
     (let h1 = sanitize_history h0 @ [\<lparr>role = User, content = transcript env\<rparr>];
          st = llm_producer (leg1_tokens env)
      in if is_search st then
           (case search_directive (full_response st) of
              None \<Rightarrow> full_response st
            | Some query \<Rightarrow>
                (case resolve_search env (clean_for_search (lower_case env) (transcript env)) (strip query) of
                   Inl e \<Rightarrow> full_response st
                 | Inr search_results \<Rightarrow>
                     fst (search_llm_producer (leg2_tokens env
                       (h1 @ [\<lparr>role = Assistant, content = full_response st\<rparr>,
                              \<lparr>role = User, content = search_prompt (strip query) search_results\<rparr>])))))
         else full_response st)"

text \<open>
  A search result that has a title and a body, and the summary line of such a result:
  a dash, the title, a colon, the body.
\<close>

definition has_title_and_body :: "(pystr \<times> pystr) list \<Rightarrow> bool" where
  "has_title_and_body r \<longleftrightarrow> map_of r (str ''title'') \<noteq> None \<and> map_of r (str ''body'') \<noteq> None"

definition summary_line :: "(pystr \<times> pystr) list \<Rightarrow> pystr" where
  "summary_line r =
     str ''- '' @ the (map_of r (str ''title'')) @ str '': '' @ the (map_of r (str ''body''))"

text \<open>The audio payloads of the messages of a synthesis session, in their order.\<close>

fun audio_payloads :: "reader_step list \<Rightarrow> pystr list" where
  "audio_payloads [] = []"
| "audio_payloads (s # rest) =
     (case message s of AudioOutput a \<Rightarrow> a # audio_payloads rest | _ \<Rightarrow> audio_payloads rest)"


section \<open>Properties of the text operations\<close>

lemma terminator_not_space: "is_terminator c \<Longrightarrow> \<not> is_space c"
  by (auto simp: is_terminator_def is_space_def)

lemma newline_is_space: "is_space newline"
  by (simp add: is_space_def newline_def)

lemma newline_not_terminator: "\<not> is_terminator newline"
  by (simp add: is_terminator_def newline_def)

lemma lstrip_space_Cons: "is_space s \<Longrightarrow> lstrip (s # x) = lstrip x"
  by (simp add: lstrip_def)

lemma strip_space_Cons: "is_space s \<Longrightarrow> strip (s # x) = strip x"
  by (simp add: strip_def lstrip_def)

lemma rstrip_append_spaces: "\<forall>c\<in>set w. is_space c \<Longrightarrow> rstrip (x @ w) = rstrip x"
  using dropWhile_append2 [of "rev w" is_space "rev x"] by (simp add: rstrip_def)

lemma strip_append_spaces:
  assumes "\<forall>c\<in>set w. is_space c"
  shows "strip (x @ w) = strip x"
proof (cases "\<forall>c\<in>set x. is_space c")
  case True
  with assms have "lstrip (x @ w) = []" and "lstrip x = []"
    by (simp_all add: lstrip_def)
  then show ?thesis by (simp add: strip_def)
next
  case False
  then obtain c where "c \<in> set x" and "\<not> is_space c" by blast
  then have "lstrip (x @ w) = lstrip x @ w"
    by (simp add: lstrip_def)
  with assms show ?thesis by (simp add: strip_def rstrip_append_spaces)
qed

lemma strip_lstrip: "strip (lstrip b) = strip b"
  by (simp add: strip_def lstrip_def)

lemma clean_for_tts_Nil: "clean_for_tts [] = []"
  by (simp add: clean_for_tts_def strip_def lstrip_def rstrip_def)

lemma strip_single_space: "is_space s \<Longrightarrow> strip [s] = []"
  by (simp add: strip_def lstrip_def rstrip_def)

lemma extract_sentences_None:
  "SENTENCE_END_search b = None \<Longrightarrow> extract_sentences b q = (b, q)"
  by (simp add: extract_sentences.simps)

lemma extract_sentences_Some:
  "SENTENCE_END_search b = Some e \<Longrightarrow>
   extract_sentences b q = extract_sentences (drop e b) (emit_clean q (strip (take e b)))"
  by (subst extract_sentences.simps) (simp add: emit_clean_def Let_def)

lemma extract_sentences_remainder: "SENTENCE_END_search (fst (extract_sentences b q)) = None"
proof (induction b q rule: extract_sentences.induct)
  case (1 buffer queue)
  show ?case
  proof (cases "SENTENCE_END_search buffer")
    case None
    then show ?thesis by (simp add: extract_sentences_None)
  next
    case (Some e)
    then show ?thesis
      using "1.IH" [OF Some refl refl refl] by (simp add: extract_sentences_Some emit_clean_def)
  qed
qed

lemma same_output_refl: "same_output a a"
  by (simp add: same_output_def)

lemma same_output_sym: "same_output a b \<Longrightarrow> same_output b a"
  by (simp add: same_output_def)

lemma same_output_trans: "same_output a b \<Longrightarrow> same_output b c \<Longrightarrow> same_output a c"
  by (simp add: same_output_def)

lemma extract_sentences_leading_space:
  assumes "is_space s"
  shows "same_output (extract_sentences (s # rest) q) (extract_sentences rest q)"
proof (cases "s = newline")
  case True
  with assms have "SENTENCE_END_search (s # rest) = Some 1"
    by (simp add: newline_not_terminator)
  then have "extract_sentences (s # rest) q = extract_sentences rest (emit_clean q (strip [s]))"
    using extract_sentences_Some [of "s # rest" 1 q] by simp
  with assms show ?thesis
    by (simp add: strip_single_space emit_clean_def clean_for_tts_Nil same_output_refl)
next
  case False
  with assms have m: "SENTENCE_END_search (s # rest) = map_option Suc (SENTENCE_END_search rest)"
    using terminator_not_space by auto
  show ?thesis
  proof (cases "SENTENCE_END_search rest")
    case None
    with m show ?thesis
      using assms by (simp add: extract_sentences_None same_output_def lstrip_space_Cons)
  next
    case (Some e)
    with m have "SENTENCE_END_search (s # rest) = Some (Suc e)" by simp
    then have "extract_sentences (s # rest) q =
        extract_sentences (drop e rest) (emit_clean q (strip (s # take e rest)))"
      using extract_sentences_Some [of "s # rest" "Suc e" q] by simp
    with Some assms show ?thesis
      by (simp add: extract_sentences_Some strip_space_Cons same_output_refl)
  qed
qed

lemma extract_sentences_lstrip:
  "same_output (extract_sentences b q) (extract_sentences (lstrip b) q)"
proof (induction b)
  case Nil
  then show ?case by (simp add: lstrip_def same_output_refl)
next
  case (Cons s rest)
  show ?case
  proof (cases "is_space s")
    case True
    then have "lstrip (s # rest) = lstrip rest" by (rule lstrip_space_Cons)
    with Cons extract_sentences_leading_space [OF True] show ?thesis
      by (metis same_output_trans)
  next
    case False
    then show ?thesis by (simp add: lstrip_def same_output_refl)
  qed
qed

lemma extract_sentences_lstrip_cong:
  assumes "lstrip b1 = lstrip b2"
  shows "same_output (extract_sentences b1 q) (extract_sentences b2 q)"
  using extract_sentences_lstrip [of b1 q] extract_sentences_lstrip [of b2 q] assms
  by (metis same_output_trans same_output_sym)

lemma SENTENCE_END_match_at_append:
  assumes "SENTENCE_END_match_at t = Some e"
  shows "SENTENCE_END_match_at (t @ c) = Some e \<or>
         (e = length t \<and> SENTENCE_END_match_at (t @ c) = Some (e + length (takeWhile is_space c)))"
proof (cases t)
  case Nil
  with assms show ?thesis by simp
next
  case (Cons x xs)
  show ?thesis
  proof (cases "is_terminator x \<and> takeWhile is_space xs \<noteq> []")
    case True
    with assms Cons have e: "e = Suc (length (takeWhile is_space xs))" by simp
    show ?thesis
    proof (cases "\<forall>y\<in>set xs. is_space y")
      case all: True
      then have "takeWhile is_space (xs @ c) = xs @ takeWhile is_space c" and "takeWhile is_space xs = xs"
        by simp_all
      with True e Cons show ?thesis by simp
    next
      case False
      then obtain y where "y \<in> set xs" and "\<not> is_space y" by blast
      then have "takeWhile is_space (xs @ c) = takeWhile is_space xs" by simp
      with True e Cons show ?thesis by simp
    qed
  next
    case False
    with assms Cons have "x = newline" and "e = 1"
      by (auto split: if_splits)
    with Cons show ?thesis by (simp add: newline_not_terminator)
  qed
qed

lemma SENTENCE_END_match_at_append_None:
  assumes "SENTENCE_END_match_at (x # xs) = None" and "xs \<noteq> []"
  shows "SENTENCE_END_match_at (x # xs @ c) = None"
proof -
  from assms(1) have nl: "x \<noteq> newline" and t: "is_terminator x \<longrightarrow> takeWhile is_space xs = []"
    by (auto split: if_splits)
  have "is_terminator x \<longrightarrow> takeWhile is_space (xs @ c) = []"
  proof
    assume "is_terminator x"
    with t assms(2) have "\<not> is_space (hd xs)" by (simp add: takeWhile_eq_Nil_iff)
    with assms(2) show "takeWhile is_space (xs @ c) = []" by (simp add: takeWhile_eq_Nil_iff)
  qed
  with nl show ?thesis by simp
qed

lemma SENTENCE_END_search_append:
  "SENTENCE_END_search t = Some e \<Longrightarrow>
   SENTENCE_END_search (t @ c) = Some e \<or>
   (e = length t \<and> SENTENCE_END_search (t @ c) = Some (e + length (takeWhile is_space c)))"
proof (induction t arbitrary: e)
  case Nil
  then show ?case by simp
next
  case (Cons x xs)
  show ?case
  proof (cases "SENTENCE_END_match_at (x # xs)")
    case (Some n)
    with Cons.prems have "n = e" by simp
    with Some SENTENCE_END_match_at_append [of "x # xs" e c] show ?thesis
      by (auto simp del: SENTENCE_END_match_at.simps)
  next
    case None
    with Cons.prems obtain e' where s: "SENTENCE_END_search xs = Some e'" and e: "e = Suc e'"
      by auto
    from s have "xs \<noteq> []" by auto
    with None have "SENTENCE_END_match_at (x # xs @ c) = None"
      by (rule SENTENCE_END_match_at_append_None)
    with Cons.IH [OF s] e show ?thesis by auto
  qed
qed

lemma extract_sentences_append:
  "same_output (extract_sentences (t @ c) q)
     (case extract_sentences t q of (r, q') \<Rightarrow> extract_sentences (r @ c) q')"
proof (induction t q rule: extract_sentences.induct)
  case (1 t q)
  show ?case
  proof (cases "SENTENCE_END_search t")
    case None
    then show ?thesis by (simp add: extract_sentences_None same_output_refl)
  next
    case (Some e)
    let ?q = "emit_clean q (strip (take e t))"
    have step: "extract_sentences t q = extract_sentences (drop e t) ?q"
      using Some by (rule extract_sentences_Some)
    have bounds: "e \<le> length t"
      using SENTENCE_END_search_bounds [OF Some] by simp
    have IH: "same_output (extract_sentences (drop e t @ c) ?q)
        (case extract_sentences (drop e t) ?q of (r, q') \<Rightarrow> extract_sentences (r @ c) q')"
      using "1.IH" [OF Some refl refl refl] by (simp add: emit_clean_def)
    from SENTENCE_END_search_append [OF Some, of c]
    show ?thesis
    proof
      assume a: "SENTENCE_END_search (t @ c) = Some e"
      have "extract_sentences (t @ c) q = extract_sentences (drop e t @ c) ?q"
        using extract_sentences_Some [OF a, of q] bounds by simp
      with IH step show ?thesis by simp
    next
      assume "e = length t \<and>
        SENTENCE_END_search (t @ c) = Some (e + length (takeWhile is_space c))"
      then have e: "e = length t"
        and a: "SENTENCE_END_search (t @ c) = Some (length t + length (takeWhile is_space c))"
        by simp_all
      have tk: "take (length t + length (takeWhile is_space c)) (t @ c) = t @ takeWhile is_space c"
        using takeWhile_eq_take [of is_space c] by simp
      have dr: "drop (length t + length (takeWhile is_space c)) (t @ c) = lstrip c"
        using dropWhile_eq_drop [of is_space c] by (simp add: lstrip_def)
      have sp: "strip (t @ takeWhile is_space c) = strip t"
        by (rule strip_append_spaces) (auto dest: set_takeWhileD)
      have one: "extract_sentences (t @ c) q = extract_sentences (lstrip c) (emit_clean q (strip t))"
        using extract_sentences_Some [OF a, of q] by (simp only: tk dr sp)
      have two: "extract_sentences t q = ([], emit_clean q (strip t))"
        using step e by (simp add: extract_sentences_None)
      from one two show ?thesis
        using extract_sentences_lstrip [of c "emit_clean q (strip t)"]
        by (simp add: same_output_sym)
    qed
  qed
qed

lemma feed_chunks_extract:
  "SENTENCE_END_search b = None \<Longrightarrow>
   same_output (feed_chunks cs b q) (extract_sentences (b @ concat cs) q)"
proof (induction cs arbitrary: b q)
  case Nil
  then show ?case by (simp add: extract_sentences_None same_output_refl)
next
  case (Cons c cs)
  obtain b' q' where e: "extract_sentences (b @ c) q = (b', q')"
    by (cases "extract_sentences (b @ c) q")
  have "SENTENCE_END_search b' = None"
    using extract_sentences_remainder [of "b @ c" q] e by simp
  then have "same_output (feed_chunks cs b' q') (extract_sentences (b' @ concat cs) q')"
    by (rule Cons.IH)
  moreover have "same_output (extract_sentences ((b @ c) @ concat cs) q)
      (extract_sentences (b' @ concat cs) q')"
    using extract_sentences_append [of "b @ c" "concat cs" q] e by simp
  ultimately show ?case
    using e by (auto intro: same_output_trans same_output_sym)
qed

lemma flush_remainder_same_output:
  "same_output a b \<Longrightarrow> flush_remainder (fst a) (snd a) = flush_remainder (fst b) (snd b)"
proof -
  assume "same_output a b"
  then have "strip (fst a) = strip (fst b)" and "snd a = snd b"
    by (simp_all add: same_output_def strip_def)
  then show ?thesis by (simp add: flush_remainder_def)
qed


section \<open>The remainder of a segmentation\<close>

lemma has_sentence_end_Nil: "\<not> has_sentence_end []"
  by (simp add: has_sentence_end_def)

lemma has_sentence_end_Cons:
  "has_sentence_end (c # cs) \<longleftrightarrow>
     c = newline \<or> (is_terminator c \<and> cs \<noteq> [] \<and> is_space (hd cs)) \<or> has_sentence_end cs"
proof -
  have a: "(\<exists>p r. c # cs = p @ newline # r) \<longleftrightarrow> c = newline \<or> (\<exists>p r. cs = p @ newline # r)"
    by (auto simp: Cons_eq_append_conv)
  have b: "(\<exists>p x w r. c # cs = p @ x # w # r \<and> is_terminator x \<and> is_space w) \<longleftrightarrow>
      (is_terminator c \<and> cs \<noteq> [] \<and> is_space (hd cs)) \<or>
      (\<exists>p x w r. cs = p @ x # w # r \<and> is_terminator x \<and> is_space w)"
    (is "?l \<longleftrightarrow> ?m \<or> ?r")
  proof
    assume ?l
    then obtain p x w r where e: "c # cs = p @ x # w # r" and t: "is_terminator x" "is_space w"
      by blast
    show "?m \<or> ?r"
    proof (cases p)
      case Nil
      with e t show ?thesis by auto
    next
      case (Cons y p')
      with e have "cs = p' @ x # w # r" by simp
      with t show ?thesis by blast
    qed
  next
    assume "?m \<or> ?r"
    then show ?l
    proof
      assume ?m
      then obtain w r where "cs = w # r" and "is_space w" and "is_terminator c"
        by (cases cs) auto
      then have "c # cs = [] @ c # w # r \<and> is_terminator c \<and> is_space w" by simp
      then show ?l by blast
    next
      assume ?r
      then obtain p x w r where "cs = p @ x # w # r" and "is_terminator x" and "is_space w"
        by blast
      then have "c # cs = (c # p) @ x # w # r \<and> is_terminator x \<and> is_space w" by simp
      then show ?l by blast
    qed
  qed
  show ?thesis
    unfolding has_sentence_end_def a b by blast
qed

lemma SENTENCE_END_search_None_iff:
  "SENTENCE_END_search s = None \<longleftrightarrow> \<not> has_sentence_end s"
proof (induction s)
  case Nil
  then show ?case by (simp add: has_sentence_end_Nil)
next
  case (Cons c cs)
  have "takeWhile is_space cs \<noteq> [] \<longleftrightarrow> cs \<noteq> [] \<and> is_space (hd cs)"
    by (simp add: takeWhile_eq_Nil_iff)
  with Cons show ?case
    by (auto simp: has_sentence_end_Cons)
qed


lemma extract_sentences_suffix: "\<exists>p. b = p @ fst (extract_sentences b q)"
proof (induction b q rule: extract_sentences.induct)
  case (1 buffer queue)
  show ?case
  proof (cases "SENTENCE_END_search buffer")
    case None
    then show ?thesis by (simp add: extract_sentences_None)
  next
    case (Some e)
    from "1.IH" [OF Some refl refl refl]
    obtain p where "drop e buffer = p @ fst (extract_sentences buffer queue)"
      using Some by (auto simp: extract_sentences_Some emit_clean_def)
    then have "buffer = (take e buffer @ p) @ fst (extract_sentences buffer queue)"
      by (metis append_assoc append_take_drop_id)
    then show ?thesis by blast
  qed
qed

text \<open>
  Claim C10. Whatever the buffer, the remainder returned by \<open>extract_sentences\<close> is a
  suffix of the buffer in which the sentence-terminator pattern has no match: it holds
  no newline and none of \<open>. ! ? ;\<close> followed by whitespace. Every terminated sentence of
  the buffer was cut off in the same call.
\<close>

theorem extract_sentences_remainder_unterminated:
  "SENTENCE_END_search (fst (extract_sentences buffer queue)) = None \<and>
   \<not> has_sentence_end (fst (extract_sentences buffer queue)) \<and>
   (\<exists>p. buffer = p @ fst (extract_sentences buffer queue))"
  using extract_sentences_remainder [of buffer queue] extract_sentences_suffix [of buffer queue]
  by (simp add: SENTENCE_END_search_None_iff)

section \<open>Chunk-boundary independence\<close>

text \<open>
  Claim C3. For every text and every way of cutting it into consecutive chunks, feeding
  the chunks one after the other (each call of \<open>extract_sentences\<close> on the previous
  remainder with the next chunk appended, and the final flush of the cleaned remainder)
  puts the same fragments on the queue, in the same order, as feeding the whole text in
  one call with the same final flush. In particular the sets of fragments are equal.
\<close>

theorem chunk_boundary_independence:
  "segment_stream chunks = segment_stream [concat chunks] \<and>
   set (segment_stream chunks) = set (segment_stream [concat chunks])"
proof -
  have "same_output (feed_chunks chunks [] []) (extract_sentences (concat chunks) [])"
    using feed_chunks_extract [of "[]" chunks "[]"] by simp
  then have "flush_remainder (fst (feed_chunks chunks [] [])) (snd (feed_chunks chunks [] [])) =
      flush_remainder (fst (extract_sentences (concat chunks) [])) (snd (extract_sentences (concat chunks) []))"
    by (rule flush_remainder_same_output)
  then have "segment_stream chunks = segment_stream [concat chunks]"
    by (simp add: segment_stream_def split_beta)
  then show ?thesis by simp
qed

section \<open>Evaluation of the text operations on literals\<close>

lemmas text_eval = str_def is_space_def strip_def lstrip_def rstrip_def split_def ascii_lower_def
  is_terminator_def newline_def clean_for_tts_def EMOJI_PATTERN_def put_nowait_def

section \<open>The similarity of two queries\<close>

lemma card_Un_eq_left:
  assumes "finite a" and "finite b"
  shows "card (a \<union> b) = card a \<longleftrightarrow> b \<subseteq> a"
proof
  assume "card (a \<union> b) = card a"
  with assms have "a \<union> b = a"
    by (metis Un_upper1 card_subset_eq finite_UnI)
  then show "b \<subseteq> a" by blast
next
  assume "b \<subseteq> a"
  then have "a \<union> b = a" by blast
  then show "card (a \<union> b) = card a" by simp
qed

lemma max_card_le_Un:
  assumes "finite a" and "finite b"
  shows "max (card a) (card b) \<le> card (a \<union> b)"
  using assms by (simp add: card_mono)

lemma max_card_eq_Un:
  assumes "finite a" and "finite b"
  shows "max (card a) (card b) = card (a \<union> b) \<longleftrightarrow> a \<subseteq> b \<or> b \<subseteq> a"
proof -
  have l: "card (a \<union> b) = card a \<longleftrightarrow> b \<subseteq> a"
    using assms by (rule card_Un_eq_left)
  have r: "card (a \<union> b) = card b \<longleftrightarrow> a \<subseteq> b"
    using card_Un_eq_left [OF assms(2) assms(1)] by (simp add: Un_commute)
  have le: "card a \<le> card (a \<union> b)" "card b \<le> card (a \<union> b)"
    using assms by (simp_all add: card_mono)
  have nat_max: "max x y = u \<longleftrightarrow> x = u \<or> y = u" if "x \<le> u" and "y \<le> u" for x y u :: nat
    using that by (auto simp: max_def)
  have "max (card a) (card b) = card (a \<union> b) \<longleftrightarrow>
      card a = card (a \<union> b) \<or> card b = card (a \<union> b)"
    using le by (rule nat_max)
  also have "\<dots> \<longleftrightarrow> b \<subseteq> a \<or> a \<subseteq> b"
    using l r by (metis (no_types))
  finally show ?thesis by blast
qed

lemma frac_nat_eq:
  fixes i m u :: nat
  assumes "0 < m" and "0 < u"
  shows "(of_nat i :: rat) / of_nat m = of_nat i / of_nat u \<longleftrightarrow> i = 0 \<or> m = u"
  using assms by (auto simp: frac_eq_eq)

text \<open>
  Claim C1, as the code has it. \<open>query_similarity\<close> divides the number of common words
  by the size of the larger of the two word sets, not by the size of their union; it is
  \<open>0\<close> when either word set is empty, and symmetric. It is never below the Jaccard ratio,
  and equals it exactly when the word sets are disjoint or one contains the other.
\<close>

theorem query_similarity_overlap:
  "query_similarity lower q1 q2 =
     (if word_set lower q1 = {} \<or> word_set lower q2 = {} then 0
      else of_nat (card (word_set lower q1 \<inter> word_set lower q2)) /
           of_nat (max (card (word_set lower q1)) (card (word_set lower q2)))) \<and>
   query_similarity lower q1 q2 = query_similarity lower q2 q1 \<and>
   jaccard (word_set lower q1) (word_set lower q2) \<le> query_similarity lower q1 q2 \<and>
   (query_similarity lower q1 q2 = jaccard (word_set lower q1) (word_set lower q2) \<longleftrightarrow>
      word_set lower q1 \<inter> word_set lower q2 = {} \<or> word_set lower q1 \<subseteq> word_set lower q2 \<or> word_set lower q2 \<subseteq> word_set lower q1)"
proof -
  let ?a = "word_set lower q1" and ?b = "word_set lower q2"
  have fin: "finite ?a" "finite ?b" by (simp_all add: word_set_def)
  have f: "query_similarity lower q1 q2 =
     (if ?a = {} \<or> ?b = {} then 0
      else of_nat (card (?a \<inter> ?b)) / of_nat (max (card ?a) (card ?b)))"
    by (simp add: query_similarity_def word_set_def Let_def)
  have s: "query_similarity lower q1 q2 = query_similarity lower q2 q1"
    by (simp add: query_similarity_def Let_def Int_commute max.commute disj_commute)
  show ?thesis
  proof (cases "?a = {} \<or> ?b = {}")
    case True
    then have "?a \<inter> ?b = {}" by blast
    with True f s show ?thesis by (simp add: jaccard_def)
  next
    case False
    let ?i = "card (?a \<inter> ?b)" and ?m = "max (card ?a) (card ?b)" and ?u = "card (?a \<union> ?b)"
    from False fin have "0 < card ?a" by (simp add: card_gt_0_iff)
    then have m: "0 < ?m" by (simp add: less_max_iff_disj)
    have mu: "?m \<le> ?u" using fin by (rule max_card_le_Un)
    with m have u: "0 < ?u" by (rule less_le_trans)
    have q: "query_similarity lower q1 q2 = of_nat ?i / of_nat ?m" using f False by simp
    have j: "jaccard ?a ?b = of_nat ?i / of_nat ?u" using False by (simp add: jaccard_def)
    have le: "(of_nat ?i :: rat) / of_nat ?u \<le> of_nat ?i / of_nat ?m"
    proof (rule divide_left_mono)
      show "(of_nat ?m :: rat) \<le> of_nat ?u" using mu by simp
      show "(0::rat) \<le> of_nat ?i" by simp
      show "(0::rat) < of_nat ?u * of_nat ?m" using m u by simp
    qed
    have "(of_nat ?i :: rat) / of_nat ?m = of_nat ?i / of_nat ?u \<longleftrightarrow> ?i = 0 \<or> ?m = ?u"
      using m u by (rule frac_nat_eq)
    moreover have "?i = 0 \<longleftrightarrow> ?a \<inter> ?b = {}" using fin by simp
    moreover have "?m = ?u \<longleftrightarrow> ?a \<subseteq> ?b \<or> ?b \<subseteq> ?a" using fin by (rule max_card_eq_Un)
    ultimately have "query_similarity lower q1 q2 = jaccard ?a ?b \<longleftrightarrow>
        ?a \<inter> ?b = {} \<or> ?a \<subseteq> ?b \<or> ?b \<subseteq> ?a"
      using q j by simp
    with f s le q j show ?thesis by simp
  qed
qed

theorem query_similarity_overlap_witness:
  "query_similarity ascii_lower (str ''a b'') (str ''B'') = 1 / 2 \<and>
   jaccard (word_set ascii_lower (str ''a b'')) (word_set ascii_lower (str ''B'')) = 1 / 2 \<and>
   word_set ascii_lower (str ''B'') \<subseteq> word_set ascii_lower (str ''a b'')"
proof -
  have e: "word_set ascii_lower (str ''a b'') = {[97], [98]}" "word_set ascii_lower (str ''B'') = {[98]}"
    by (simp_all add: word_set_def str_def split_def ascii_lower_def is_space_def)
  have i: "{[97::nat], [98]} \<inter> {[98]} = {[98]}" by auto
  have u: "{[97::nat], [98]} \<union> {[98]} = {[97], [98]}" by auto
  from query_similarity_overlap [of ascii_lower "str ''a b''" "str ''B''"]
  have "query_similarity ascii_lower (str ''a b'') (str ''B'') =
      of_nat (card ({[97::nat], [98]} \<inter> {[98]})) / of_nat (max (card {[97::nat], [98]}) (card {[98::nat]}))"
    unfolding e by simp
  then have q: "query_similarity ascii_lower (str ''a b'') (str ''B'') = 1 / 2"
    unfolding i by simp
  have j: "jaccard (word_set ascii_lower (str ''a b'')) (word_set ascii_lower (str ''B'')) = 1 / 2"
    unfolding e jaccard_def i u by simp
  from q j e show ?thesis by simp
qed

text \<open>
  The claim as stated fails: for \<open>a b\<close> and \<open>a c\<close> the code returns one half, the
  Jaccard ratio is one third.
\<close>

theorem query_similarity_jaccard_counterexample:
  "query_similarity ascii_lower (str ''a b'') (str ''a c'') \<noteq> jaccard (word_set ascii_lower (str ''a b'')) (word_set ascii_lower (str ''a c''))"
  by (simp add: query_similarity_def jaccard_def word_set_def text_eval card_insert_if)


section \<open>The cleaned search query\<close>






















text \<open>
  On a string with whitespace at its ends, which server.py never passes, the fallback
  returns the stripped string.
\<close>

lemma clean_for_search_strips_ends:
  "length (filtered_query ascii_lower (str '' hi '')) < 5 \<and>
   clean_for_search ascii_lower (str '' hi '') = str ''hi''"
  by (simp add: clean_for_search_def filtered_query_def is_filler_def strip_chars_def FILLER_WORDS_def text_eval)

section \<open>The synthesis consumer\<close>

lemma reader_loop_count_bounds:
  "n + length (fst (reader_loop n ss)) \<le> snd (reader_loop n ss) \<and>
   snd (reader_loop n ss) \<le> Suc (n + length (fst (reader_loop n ss)))"
proof (induction ss arbitrary: n)
  case Nil
  then show ?case by simp
next
  case (Cons s ss)
  show ?case
  proof (cases "message s")
    case (AudioOutput a)
    with Cons [of "Suc n"] show ?thesis by (simp add: split_beta Let_def)
  next
    case (EventResponse t)
    with Cons [of n] show ?thesis by simp
  next
    case OtherMessage
    with Cons [of n] show ?thesis by simp
  qed
qed

lemma reader_loop_count_sent:
  "\<forall>s\<in>set ss. send_ok s \<Longrightarrow> snd (reader_loop n ss) = n + length (fst (reader_loop n ss))"
proof (induction ss arbitrary: n)
  case Nil
  then show ?case by simp
next
  case (Cons s ss)
  then have ih: "\<And>m. snd (reader_loop m ss) = m + length (fst (reader_loop m ss))" and ok: "send_ok s"
    by simp_all
  show ?case
  proof (cases "message s")
    case (AudioOutput a)
    with ih [of "Suc n"] ok show ?thesis by (simp add: split_beta Let_def)
  next
    case (EventResponse t)
    with ih [of n] show ?thesis by simp
  next
    case OtherMessage
    with ih [of n] show ?thesis by simp
  qed
qed

lemma reader_loop_numbers:
  "k < length (fst (reader_loop n ss)) \<Longrightarrow> chunk_num (fst (reader_loop n ss) ! k) = Suc (n + k)"
proof (induction ss arbitrary: n k)
  case Nil
  then show ?case by simp
next
  case (Cons s ss)
  show ?case
  proof (cases "message s")
    case (AudioOutput a)
    show ?thesis
    proof (cases k)
      case 0
      with AudioOutput Cons.prems show ?thesis
        by (auto simp: split_beta Let_def split: if_splits)
    next
      case (Suc k')
      with AudioOutput Cons.prems have "k' < length (fst (reader_loop (Suc n) ss))"
        and "fst (reader_loop n (s # ss)) ! k = fst (reader_loop (Suc n) ss) ! k'"
        by (auto simp: split_beta Let_def split: if_splits)
      with Cons.IH [of k' "Suc n"] Suc show ?thesis by simp
    qed
  next
    case (EventResponse t)
    with Cons.IH [of k n] Cons.prems show ?thesis by (auto split: if_splits)
  next
    case OtherMessage
    with Cons.IH [of k n] Cons.prems show ?thesis by (auto split: if_splits)
  qed
qed

lemma reader_loop_order:
  "\<exists>rest. audio_payloads ss = map audio (fst (reader_loop n ss)) @ rest"
proof (induction ss arbitrary: n)
  case Nil
  then show ?case by simp
next
  case (Cons s ss)
  show ?case
  proof (cases "message s")
    case (AudioOutput a)
    from Cons [of "Suc n"] obtain rest where
      "audio_payloads ss = map audio (fst (reader_loop (Suc n) ss)) @ rest" by blast
    with AudioOutput show ?thesis by (simp add: split_beta Let_def)
  next
    case (EventResponse t)
    with Cons [of n] show ?thesis by simp
  next
    case OtherMessage
    with Cons [of n] show ?thesis by simp
  qed
qed

text \<open>
  What holds of every run of \<open>stream_to_client\<close>: the k-th \<open>audio_chunk\<close> event sent
  carries \<open>chunk_num\<close> k, counting from 1; the payloads are an initial part of those the
  service delivered, in order; the value returned is the number of events sent or one
  more, and is that number when every send returns; it is \<open>0\<close> when the cancellation is
  seen at the first message. The first-leg consumer of a search turn sends no event.
\<close>

lemma stream_to_client_events:
  "(\<forall>k < length (fst (stream_to_client session)).
      chunk_num (fst (stream_to_client session) ! k) = Suc k) \<and>
   (\<exists>rest. audio_payloads (steps session) = map audio (fst (stream_to_client session)) @ rest) \<and>
   length (fst (stream_to_client session)) \<le> snd (stream_to_client session) \<and>
   snd (stream_to_client session) \<le> Suc (length (fst (stream_to_client session))) \<and>
   ((\<forall>s\<in>set (steps session). send_ok s) \<longrightarrow>
      snd (stream_to_client session) = length (fst (stream_to_client session))) \<and>
   (\<forall>s rest. steps session = s # rest \<and> cancel_set s \<longrightarrow> stream_to_client session = ([], 0)) \<and>
   tts_consumer True cancelled session = []"
proof (cases "connect_ok session")
  case True
  then have e: "stream_to_client session = reader_loop 0 (steps session)"
    by (simp add: stream_to_client_def)
  show ?thesis
    unfolding e
    using reader_loop_count_bounds [of 0 "steps session"] reader_loop_numbers [of _ 0 "steps session"]
      reader_loop_order [of "steps session" 0] reader_loop_count_sent [of "steps session" 0]
    by (simp add: tts_consumer_def)
next
  case False
  then show ?thesis by (simp add: stream_to_client_def tts_consumer_def)
qed

text \<open>
  Claim C7, at a concrete run. The synthesis service delivers one audio message and
  \<open>websocket.send_text\<close> raises on it (the browser has gone): \<open>chunk_count\<close> was incremented
  before the send, the handler of line 80 catches the exception, and the function
  returns 1 with no \<open>audio_chunk\<close> event sent. With a first chunk sent and the send of
  the second raising it returns 2 with one event sent. The value returned is not the
  number of events sent; the numbering of the events that are sent, their order and the
  zero cases hold (\<open>stream_to_client_events\<close>).
\<close>

theorem stream_to_client_counts_failed_send:
  "stream_to_client \<lparr>connect_ok = True, steps =
      [\<lparr>message = AudioOutput [1], cancel_set = False, send_ok = False\<rparr>]\<rparr> = ([], 1) \<and>
   stream_to_client \<lparr>connect_ok = True, steps =
      [\<lparr>message = AudioOutput [1], cancel_set = False, send_ok = True\<rparr>,
       \<lparr>message = AudioOutput [2], cancel_set = False, send_ok = False\<rparr>,
       \<lparr>message = AudioOutput [3], cancel_set = False, send_ok = True\<rparr>]\<rparr> =
     ([\<lparr>audio = [1], chunk_num = 1\<rparr>], 2) \<and>
   stream_to_client \<lparr>connect_ok = True, steps =
      [\<lparr>message = AudioOutput [1], cancel_set = False, send_ok = True\<rparr>,
       \<lparr>message = AudioOutput [2], cancel_set = False, send_ok = True\<rparr>,
       \<lparr>message = EventResponse (str ''final''), cancel_set = False, send_ok = True\<rparr>]\<rparr> =
     ([\<lparr>audio = [1], chunk_num = 1\<rparr>, \<lparr>audio = [2], chunk_num = 2\<rparr>], 2)"
  by (simp add: stream_to_client_def)

section \<open>Cancellation of the synthesis consumer\<close>

lemma reader_loop_cancelled:
  "\<forall>s\<in>set post. cancel_set s \<Longrightarrow> reader_loop n post = ([], n)"
  by (cases post) simp_all

lemma reader_loop_append_cancelled:
  assumes "\<forall>s\<in>set post. cancel_set s"
  shows "reader_loop n (pre @ post) = reader_loop n pre"
proof (induction pre arbitrary: n)
  case Nil
  with assms show ?case by (simp add: reader_loop_cancelled)
next
  case (Cons s pre)
  show ?case
  proof (cases "message s")
    case (AudioOutput a)
    with Cons [of "Suc n"] show ?thesis by (simp add: Let_def)
  next
    case (EventResponse t)
    with Cons [of n] show ?thesis by simp
  next
    case OtherMessage
    with Cons [of n] show ?thesis by simp
  qed
qed

text \<open>
  Claim C8. Let the reader loop have handled the messages \<open>pre\<close>, and let the cancellation
  signal be set from then on (every later test of \<open>cancel_event\<close> finds it set). Then the
  run sends exactly the events of \<open>pre\<close> and returns their number: if N chunks were sent
  before the cancellation, no event numbered above N is sent, whatever messages follow.
  A first-leg consumer that starts after the cancellation sends nothing.
\<close>

theorem cancel_stops_audio:
  assumes "steps session = pre @ post" and "\<forall>s\<in>set post. cancel_set s"
  shows "stream_to_client session = stream_to_client (session\<lparr>steps := pre\<rparr>) \<and>
         (\<forall>e\<in>set (fst (stream_to_client session)).
            chunk_num e \<le> length (fst (stream_to_client (session\<lparr>steps := pre\<rparr>)))) \<and>
         tts_consumer search True session = []"
proof -
  have eq: "stream_to_client session = stream_to_client (session\<lparr>steps := pre\<rparr>)"
    using assms reader_loop_append_cancelled [of post 0 pre]
    by (simp add: stream_to_client_def)
  let ?evs = "fst (stream_to_client (session\<lparr>steps := pre\<rparr>))"
  have "\<forall>k < length ?evs. chunk_num (?evs ! k) = Suc k"
    using reader_loop_numbers [of _ 0 pre] by (simp add: stream_to_client_def)
  then have "\<forall>e\<in>set ?evs. chunk_num e \<le> length ?evs"
    by (auto simp: in_set_conv_nth)
  with eq show ?thesis by (simp add: tts_consumer_def)
qed


theorem cancel_stops_audio_witness:
  "stream_to_client \<lparr>connect_ok = True, steps =
      [\<lparr>message = AudioOutput [1], cancel_set = False, send_ok = True\<rparr>] @
      [\<lparr>message = AudioOutput [2], cancel_set = True, send_ok = True\<rparr>,
       \<lparr>message = AudioOutput [3], cancel_set = True, send_ok = True\<rparr>]\<rparr> =
     ([\<lparr>audio = [1], chunk_num = 1\<rparr>], 1)"
  using cancel_stops_audio
    [of "\<lparr>connect_ok = True, steps =
      [\<lparr>message = AudioOutput [1], cancel_set = False, send_ok = True\<rparr>] @
      [\<lparr>message = AudioOutput [2], cancel_set = True, send_ok = True\<rparr>,
       \<lparr>message = AudioOutput [3], cancel_set = True, send_ok = True\<rparr>]\<rparr>"
        "[\<lparr>message = AudioOutput [1], cancel_set = False, send_ok = True\<rparr>]"
        "[\<lparr>message = AudioOutput [2], cancel_set = True, send_ok = True\<rparr>,
          \<lparr>message = AudioOutput [3], cancel_set = True, send_ok = True\<rparr>]"]
  by (simp add: stream_to_client_def)

section \<open>The first-leg producer on a stream that ends undecided\<close>

lemmas producer_eval = llm_producer_def llm_producer_step_def llm_producer_finally_def producer_init_def
  flush_remainder_def extract_sentences.simps

lemma llm_producer_step_detected:
  "search_detected st \<Longrightarrow> search_detected (llm_producer_step st token)"
  by (simp add: llm_producer_step_def Let_def split_beta)

lemma llm_producer_step_undecided:
  "undecided st \<Longrightarrow> \<not> search_detected (llm_producer_step st token) \<Longrightarrow>
   undecided (llm_producer_step st token)"
  by (auto simp: llm_producer_step_def undecided_def Let_def split_beta split: if_splits)

lemma foldl_step_detected:
  "search_detected st \<Longrightarrow> search_detected (foldl llm_producer_step st tokens)"
  by (induction tokens arbitrary: st) (simp_all add: llm_producer_step_detected)

lemma foldl_step_undecided:
  "undecided st \<Longrightarrow> \<not> search_detected (foldl llm_producer_step st tokens) \<Longrightarrow>
   undecided (foldl llm_producer_step st tokens)"
proof (induction tokens arbitrary: st)
  case Nil
  then show ?case by simp
next
  case (Cons token tokens)
  have "\<not> search_detected (llm_producer_step st token)"
    using Cons.prems(2) foldl_step_detected [of "llm_producer_step st token" tokens] by auto
  with Cons.prems(1) have "undecided (llm_producer_step st token)"
    by (rule llm_producer_step_undecided)
  with Cons.IH [of "llm_producer_step st token"] Cons.prems(2) show ?case by simp
qed

lemma foldl_step_full_response:
  "full_response (foldl llm_producer_step st tokens) = full_response st @ concat tokens"
proof (induction tokens arbitrary: st)
  case Nil
  then show ?case by simp
next
  case (Cons token tokens)
  have "full_response (llm_producer_step st token) = full_response st @ token"
    by (simp add: llm_producer_step_def Let_def split_beta)
  with Cons [of "llm_producer_step st token"] show ?case by simp
qed

lemma llm_producer_full_response: "full_response (llm_producer tokens) = concat tokens"
  by (simp add: llm_producer_def llm_producer_finally_def Let_def foldl_step_full_response producer_init_def)

lemma llm_producer_undecided:
  assumes "\<not> search_detected (foldl llm_producer_step producer_init tokens)"
  shows "sentences_queue (llm_producer tokens) = [None] \<and> \<not> is_search (llm_producer tokens)"
proof -
  have "undecided producer_init" by (simp add: undecided_def producer_init_def)
  then have "undecided (foldl llm_producer_step producer_init tokens)"
    using assms by (rule foldl_step_undecided)
  then show ?thesis
    by (simp add: llm_producer_def llm_producer_finally_def undecided_def flush_remainder_def
        strip_def lstrip_def rstrip_def put_nowait_def)
qed

text \<open>
  Claim C2, at a concrete stream. The generation yields the single token \<open>Hello\<close> and
  ends: no marker, five characters, no terminator, so the decision never fires. The
  producer leaves the decision at direct-answer, but \<open>sentence_buffer\<close> was never
  filled from \<open>full_response\<close>, so its \<open>finally\<close> block puts only the end sentinel on the
  queue: the text, not empty after cleaning, is not enqueued. The producer of the second
  leg, which buffers every token, enqueues it. By \<open>llm_producer_undecided\<close> the same
  happens on every stream that ends undecided.
\<close>

theorem short_response_never_enqueued:
  "sentences_queue (llm_producer [str ''Hello'']) = [None] \<and>
   \<not> is_search (llm_producer [str ''Hello'']) \<and>
   full_response (llm_producer [str ''Hello'']) = str ''Hello'' \<and>
   clean_for_tts (full_response (llm_producer [str ''Hello''])) = str ''Hello'' \<and>
   snd (search_llm_producer [str ''Hello'']) = [Some (str ''Hello''), None]"
  by (simp add: producer_eval search_llm_producer_def segment_stream_def text_eval)

section \<open>One turn and the conversation history\<close>

lemma llm_producer_step_search_nonempty:
  "is_search st \<longrightarrow> full_response st \<noteq> [] \<Longrightarrow>
   is_search (llm_producer_step st token) \<longrightarrow> full_response (llm_producer_step st token) \<noteq> []"
  by (auto simp: llm_producer_step_def Let_def split_beta str_def split: if_splits)

lemma foldl_step_search_nonempty:
  "is_search st \<longrightarrow> full_response st \<noteq> [] \<Longrightarrow>
   is_search (foldl llm_producer_step st tokens) \<longrightarrow> full_response (foldl llm_producer_step st tokens) \<noteq> []"
proof (induction tokens arbitrary: st)
  case Nil
  then show ?case by simp
next
  case (Cons token tokens)
  from Cons.prems have "is_search (llm_producer_step st token) \<longrightarrow> full_response (llm_producer_step st token) \<noteq> []"
    by (rule llm_producer_step_search_nonempty)
  then show ?case using Cons.IH [of "llm_producer_step st token"] by simp
qed

lemma llm_producer_empty_not_search:
  "full_response (llm_producer tokens) = [] \<Longrightarrow> \<not> is_search (llm_producer tokens)"
  using foldl_step_search_nonempty [of producer_init tokens]
  by (simp add: llm_producer_def llm_producer_finally_def Let_def producer_init_def)

lemma web_search_Inr: "\<exists>s. web_search prov query = Inr s"
  by (simp add: web_search_def split: sum.splits)

lemma resolve_search_Inr: "\<exists>s. resolve_search env clean_query search_query = Inr s"
  using web_search_Inr by (simp add: resolve_search_def Let_def)

lemma search_llm_producer_response: "fst (search_llm_producer tokens) = concat tokens"
  by (simp add: search_llm_producer_def)

lemma run_search_branch:
  assumes "is_search (llm_producer (leg1_tokens env))"
    and "search_directive (full_response (llm_producer (leg1_tokens env))) = Some q"
    and "interrupted env = None"
    and "\<not> cancel_after_leg1 env" and "\<not> cancel_after_search env" and "\<not> cancel_after_leg2 env"
    and "resolve_search env (clean_for_search (lower_case env) (transcript env)) (strip q) = Inr results"
  shows "run env h =
    finish_up env (sanitize_history h @ [\<lparr>role = User, content = transcript env\<rparr>])
      (concat (leg2_tokens env
         (sanitize_history h @ [\<lparr>role = User, content = transcript env\<rparr>] @
            [\<lparr>role = Assistant, content = full_response (llm_producer (leg1_tokens env))\<rparr>,
             \<lparr>role = User, content = search_prompt (strip q) results\<rparr>])))"
  using assms by (simp add: run_def Let_def search_llm_producer_response butlast_append)

lemma run_returning_empty_response:
  assumes "response_text env h = []" and "fst (run env h) \<noteq> Raised"
  shows "snd (run env h) = sanitize_history h \<and> fst (run env h) \<noteq> Committed"
proof (cases "is_search (llm_producer (leg1_tokens env)) \<and>
    search_directive (full_response (llm_producer (leg1_tokens env))) \<noteq> None")
  case True
  then obtain q where q: "search_directive (full_response (llm_producer (leg1_tokens env))) = Some q"
    by blast
  obtain s where s: "resolve_search env (clean_for_search (lower_case env) (transcript env)) (strip q) = Inr s"
    using resolve_search_Inr by blast
  from assms(1) True q s have "fst (search_llm_producer (leg2_tokens env
      (sanitize_history h @ [\<lparr>role = User, content = transcript env\<rparr>] @
         [\<lparr>role = Assistant, content = full_response (llm_producer (leg1_tokens env))\<rparr>,
          \<lparr>role = User, content = search_prompt (strip q) s\<rparr>]))) = []"
    by (simp add: response_text_def Let_def)
  with True q s assms(2) show ?thesis
    by (auto simp: run_def finish_up_def Let_def butlast_append split: if_splits)
next
  case False
  with assms(1) have e: "full_response (llm_producer (leg1_tokens env)) = []"
    by (auto simp: response_text_def Let_def split: if_splits option.splits)
  then have "\<not> is_search (llm_producer (leg1_tokens env))"
    by (rule llm_producer_empty_not_search)
  with e assms(2) show ?thesis
    by (auto simp: run_def finish_up_def Let_def split: if_splits)
qed

lemma sanitize_loop_id:
  "(\<forall>j. i \<le> j \<and> Suc j < length h \<longrightarrow> role (h ! j) \<noteq> role (h ! Suc j)) \<Longrightarrow> sanitize_loop i h = h"
proof (induction i h rule: sanitize_loop.induct)
  case (1 i h)
  show ?case
  proof (cases "i < length h")
    case False
    then show ?thesis by (simp add: sanitize_loop.simps)
  next
    case True
    from "1.prems" have ne: "\<not> (i + 1 < length h \<and> role (h ! i) = role (h ! (i + 1)))"
      by auto
    have "sanitize_loop (i + 1) h = h"
      using True ne "1.prems" by (intro "1.IH"(2)) auto
    moreover have "sanitize_loop i h = sanitize_loop (i + 1) h"
      using True ne by (subst sanitize_loop.simps) (simp only: if_True if_False)
    ultimately show ?thesis by simp
  qed
qed

lemma alternating_from_adjacent:
  "alternating_from e rs \<Longrightarrow> Suc j < length rs \<Longrightarrow> rs ! j \<noteq> rs ! Suc j"
proof (induction rs arbitrary: e j)
  case Nil
  then show ?case by simp
next
  case (Cons r rs)
  show ?case
  proof (cases j)
    case 0
    with Cons.prems show ?thesis by (cases rs) (auto split: if_splits)
  next
    case (Suc k)
    with Cons.prems Cons.IH [of "if e = User then Assistant else User" k] show ?thesis by simp
  qed
qed

lemma alternating_from_no_system:
  "alternating_from e rs \<Longrightarrow> e \<noteq> System \<Longrightarrow> System \<notin> set rs"
proof (induction rs arbitrary: e)
  case Nil
  then show ?case by simp
next
  case (Cons r rs)
  from Cons.prems have "r \<noteq> System" and "alternating_from (if e = User then Assistant else User) rs"
    by simp_all
  with Cons.IH [of "if e = User then Assistant else User"] show ?case by auto
qed

lemma alternates_sanitize_history:
  assumes "alternates h"
  shows "sanitize_history h = h"
proof (cases h)
  case Nil
  then show ?thesis by (simp add: sanitize_history_def)
next
  case (Cons m ms)
  with assms have alt: "alternating_from User (map role ms)"
    by (simp add: alternates_def)
  have "\<forall>j. 1 \<le> j \<and> Suc j < length h \<longrightarrow> role (h ! j) \<noteq> role (h ! Suc j)"
  proof (intro allI impI)
    fix j
    assume j: "1 \<le> j \<and> Suc j < length h"
    then obtain k where k: "j = Suc k" by (cases j) auto
    with j Cons have "Suc k < length (map role ms)" by simp
    with alt have "map role ms ! k \<noteq> map role ms ! Suc k"
      by (rule alternating_from_adjacent)
    with k j Cons show "role (h ! j) \<noteq> role (h ! Suc j)" by simp
  qed
  then have "sanitize_loop 1 h = h" by (rule sanitize_loop_id)
  then show ?thesis by (simp add: sanitize_history_def)
qed

lemma alternating_from_extend:
  "alternating_from e rs \<Longrightarrow> (rs = [] \<and> e = User) \<or> (rs \<noteq> [] \<and> last rs = Assistant) \<Longrightarrow>
   alternating_from e (rs @ [User]) \<and> alternating_from e (rs @ [User, Assistant])"
proof (induction rs arbitrary: e)
  case Nil
  then show ?case by simp
next
  case (Cons r rs)
  show ?case
  proof (cases rs)
    case Nil
    with Cons.prems show ?thesis by auto
  next
    case (Cons a as)
    with Cons.prems Cons.IH [of "if e = User then Assistant else User"] show ?thesis by simp
  qed
qed

lemma settled_extend:
  assumes "settled h"
  shows "alternates (h @ [\<lparr>role = User, content = t\<rparr>, \<lparr>role = Assistant, content = r\<rparr>])"
    and "alternates (h @ [\<lparr>role = User, content = t\<rparr>])"
proof -
  from assms obtain m ms where h: "h = m # ms" and sys: "role m = System"
    and alt: "alternating_from User (map role ms)"
    by (cases h) (auto simp: settled_def alternates_def)
  from assms h have "ms \<noteq> [] \<longrightarrow> role (last ms) \<noteq> User"
    by (auto simp: settled_def)
  moreover have "ms \<noteq> [] \<longrightarrow> role (last ms) \<noteq> System"
  proof
    assume ne: "ms \<noteq> []"
    from alt have "System \<notin> set (map role ms)"
      by (rule alternating_from_no_system) simp
    with ne show "role (last ms) \<noteq> System" by (metis last_in_set image_eqI list.set_map)
  qed
  ultimately have "map role ms = [] \<and> User = User \<or> map role ms \<noteq> [] \<and> last (map role ms) = Assistant"
    by (cases "role (last ms)") (auto simp: last_map)
  with alt have "alternating_from User (map role ms @ [User]) \<and>
      alternating_from User (map role ms @ [User, Assistant])"
    by (rule alternating_from_extend)
  with h sys show "alternates (h @ [\<lparr>role = User, content = t\<rparr>, \<lparr>role = Assistant, content = r\<rparr>])"
    and "alternates (h @ [\<lparr>role = User, content = t\<rparr>])"
    by (simp_all add: alternates_def)
qed

lemma finish_up_settled:
  assumes "settled h" and "fst (finish_up env (h @ [\<lparr>role = User, content = t\<rparr>]) r) \<noteq> Raised"
  shows "settled (snd (finish_up env (h @ [\<lparr>role = User, content = t\<rparr>]) r))"
  using assms settled_extend(1) [OF assms(1), of t r]
  by (auto simp: finish_up_def Let_def settled_def split: if_splits)

lemma settled_init: "settled (conversation_history_init p)"
  by (simp add: settled_def alternates_def conversation_history_init_def)

text \<open>
  A call of \<open>run\<close> that returns, by any of its \<open>return\<close> statements or at its end, takes
  a settled history to a settled history: the four tests of \<open>cancel_event\<close> and the
  no-op exit pop what the turn appended, and the commit appends one assistant message
  after the user message.
\<close>

lemma run_returning_settled:
  assumes "settled h" and "fst (run env h) \<noteq> Raised"
  shows "settled (snd (run env h))"
proof -
  have s: "sanitize_history h = h"
    using assms(1) by (simp add: settled_def alternates_sanitize_history)
  let ?h1 = "h @ [\<lparr>role = User, content = transcript env\<rparr>]"
  have f: "\<And>r. fst (finish_up env ?h1 r) \<noteq> Raised \<Longrightarrow> settled (snd (finish_up env ?h1 r))"
    using assms(1) by (rule finish_up_settled)
  show ?thesis
    using assms f
    by (auto simp: run_def s Let_def butlast_append split: if_splits option.splits sum.splits)
qed

text \<open>
  Claim C4, at a concrete pair of turns. The first turn is left by an exception at an
  \<open>await\<close> of the first leg (the browser has gone and \<open>send_text\<close> raises, or server.py
  cancels the task after its three seconds): \<open>run\<close> has appended the user message and
  does not pop it. The second turn finds nothing to merge, appends its own user message
  and commits: the history is system, user, user, assistant. The cooperative exits pop
  the user message (\<open>run_returning_settled\<close>); the exit by an exception does not.
\<close>

theorem alternation_lost_after_interrupted_turn:
  "run ((plain_turn (str ''hi'') [] [])\<lparr>interrupted := Some AtFirstLeg\<rparr>) (conversation_history_init p) =
     (Raised, [\<lparr>role = System, content = p\<rparr>, \<lparr>role = User, content = str ''hi''\<rparr>]) \<and>
   run (plain_turn (str ''hello'') [str ''Hello''] [])
       [\<lparr>role = System, content = p\<rparr>, \<lparr>role = User, content = str ''hi''\<rparr>] =
     (Committed, [\<lparr>role = System, content = p\<rparr>, \<lparr>role = User, content = str ''hi''\<rparr>,
        \<lparr>role = User, content = str ''hello''\<rparr>, \<lparr>role = Assistant, content = str ''Hello''\<rparr>]) \<and>
   alternates (conversation_history_init p) \<and>
   \<not> alternates [\<lparr>role = System, content = p\<rparr>, \<lparr>role = User, content = str ''hi''\<rparr>,
        \<lparr>role = User, content = str ''hello''\<rparr>, \<lparr>role = Assistant, content = str ''Hello''\<rparr>]"
  by (simp add: run_def finish_up_def plain_turn_def conversation_history_init_def alternates_def
      sanitize_history_def sanitize_loop.simps producer_eval text_eval)


text \<open>
  Claim C5, at a concrete turn. The generation yields nothing and \<open>send_text\<close> of
  \<open>llm_done\<close> raises: the history keeps the user message of the turn, and is not the
  history as it stood after the sanitization. The same turn without the exception ends
  as a no-op with the history restored, as does every call of \<open>run\<close> that returns with
  an empty response text (\<open>run_returning_empty_response\<close>).
\<close>

theorem empty_response_interrupted_turn:
  "response_text ((plain_turn (str ''hi'') [] [])\<lparr>interrupted := Some AtFinish\<rparr>)
     (conversation_history_init p) = [] \<and>
   run ((plain_turn (str ''hi'') [] [])\<lparr>interrupted := Some AtFinish\<rparr>) (conversation_history_init p) =
     (Raised, [\<lparr>role = System, content = p\<rparr>, \<lparr>role = User, content = str ''hi''\<rparr>]) \<and>
   sanitize_history (conversation_history_init p) = [\<lparr>role = System, content = p\<rparr>] \<and>
   run (plain_turn (str ''hi'') [] []) (conversation_history_init p) =
     (NoOp, [\<lparr>role = System, content = p\<rparr>])"
  by (simp add: response_text_def run_def finish_up_def plain_turn_def conversation_history_init_def
      sanitize_history_def producer_eval text_eval)


section \<open>The web search and its failures\<close>

lemma format_result_complete:
  "has_title_and_body r \<Longrightarrow> format_result r = Inr (summary_line r)"
  by (auto simp: has_title_and_body_def format_result_def summary_line_def)

lemma format_result_incomplete:
  "\<not> has_title_and_body r \<Longrightarrow>
   format_result r = Inl (KeyError (str ''title'')) \<or> format_result r = Inl (KeyError (str ''body''))"
  by (auto simp: has_title_and_body_def format_result_def split: option.splits)

lemma format_results_complete:
  "\<forall>r\<in>set rs. has_title_and_body r \<Longrightarrow> format_results rs formatted = Inr (formatted @ map summary_line rs)"
  by (induction rs arbitrary: formatted) (simp_all add: format_result_complete)

lemma format_results_incomplete:
  "\<exists>r\<in>set rs. \<not> has_title_and_body r \<Longrightarrow>
   format_results rs formatted = Inl (KeyError (str ''title'')) \<or>
   format_results rs formatted = Inl (KeyError (str ''body''))"
proof (induction rs arbitrary: formatted)
  case Nil
  then show ?case by simp
next
  case (Cons r rs)
  show ?case
  proof (cases "has_title_and_body r")
    case True
    with Cons.prems have "\<exists>r\<in>set rs. \<not> has_title_and_body r" by simp
    from Cons.IH [OF this, of "formatted @ [summary_line r]"] True show ?thesis
      by (simp add: format_result_complete)
  next
    case False
    from format_result_incomplete [OF this] show ?thesis by auto
  qed
qed

lemma web_search_summaries:
  assumes "prov query = Results rs" and "rs \<noteq> []" and "\<forall>r\<in>set rs. has_title_and_body r"
  shows "web_search prov query = Inr (join [newline] (map summary_line rs))"
  using assms format_results_complete [of rs "[]"]
  by (simp add: web_search_def web_search_try_def)

lemma web_search_key_error:
  assumes "prov query = Results rs" and "\<exists>r\<in>set rs. \<not> has_title_and_body r"
  shows "web_search prov query = Inr (str ''Search error: '' @ str [CHR 0x27] @ str ''title'' @ str [CHR 0x27]) \<or>
         web_search prov query = Inr (str ''Search error: '' @ str [CHR 0x27] @ str ''body'' @ str [CHR 0x27])"
proof -
  from assms(2) have "rs \<noteq> []" by auto
  with assms(1) format_results_incomplete [OF assms(2), of "[]"] show ?thesis
    by (auto simp: web_search_def web_search_try_def exception_text_def)
qed

lemma resolve_search_failure:
  assumes "\<forall>q. provider env q = Failure m"
  shows "resolve_search env clean_query search_query = Inr (str ''Search error: '' @ m)"
  using assms by (simp add: resolve_search_def Let_def web_search_def web_search_try_def exception_text_def)

lemma search_prompt_holds_results:
  "\<exists>pre post. search_prompt search_query search_results = pre @ search_results @ post"
proof -
  have "search_prompt search_query search_results =
      (str ''Here are the web search results for '' @ str [CHR 0x27] @ search_query @ str [CHR 0x27]
         @ str '':'' @ [newline, newline]) @ search_results @
      ([newline, newline]
         @ str ''Synthesize a comprehensive and natural answer for speaking aloud. ''
         @ str ''Do NOT say '' @ str [CHR 0x27] @ str ''Here is what I found'' @ str [CHR 0x27]
         @ str ''. Just give the detailed answer.'')"
    by (simp add: search_prompt_def)
  then show ?thesis by blast
qed

text \<open>
  Claim C9. For every provider and every query \<open>web_search\<close> returns a string and raises
  nothing: the fixed text when the provider has no result; the summary lines of the
  results joined by newlines; and \<open>Search error:\<close> followed by the text of the
  exception when the provider raises or a result lacks its title or body. So the search
  of a turn always ends in a results text, which is the error text when the provider
  fails. That text stands inside the prompt of the second leg: a search turn that is
  neither cancelled nor interrupted calls the second generation with the history, the
  directive and the prompt holding the results text, and finishes with what that
  generation answers.
\<close>

theorem web_search_never_raises:
  "(\<exists>s. web_search prov query = Inr s) \<and>
   (prov query = Results [] \<longrightarrow> web_search prov query = Inr (str ''No results found.'')) \<and>
   (\<forall>rs. prov query = Results rs \<and> rs \<noteq> [] \<and> (\<forall>r\<in>set rs. has_title_and_body r) \<longrightarrow>
      web_search prov query = Inr (join [newline] (map summary_line rs))) \<and>
   (\<forall>rs. prov query = Results rs \<and> (\<exists>r\<in>set rs. \<not> has_title_and_body r) \<longrightarrow>
      web_search prov query = Inr (str ''Search error: '' @ str [CHR 0x27] @ str ''title'' @ str [CHR 0x27]) \<or>
      web_search prov query = Inr (str ''Search error: '' @ str [CHR 0x27] @ str ''body'' @ str [CHR 0x27])) \<and>
   (\<forall>m. prov query = Failure m \<longrightarrow> web_search prov query = Inr (str ''Search error: '' @ m)) \<and>
   (\<exists>s. resolve_search env clean_query search_query = Inr s) \<and>
   (\<forall>m. (\<forall>q. provider env q = Failure m) \<longrightarrow>
      resolve_search env clean_query search_query = Inr (str ''Search error: '' @ m)) \<and>
   (\<exists>pre post. search_prompt search_query search_results = pre @ search_results @ post) \<and>
   (\<forall>q h. is_search (llm_producer (leg1_tokens env)) \<and>
      search_directive (full_response (llm_producer (leg1_tokens env))) = Some q \<and>
      interrupted env = None \<and>
      \<not> cancel_after_leg1 env \<and> \<not> cancel_after_search env \<and> \<not> cancel_after_leg2 env \<longrightarrow>
      (\<exists>results.
         resolve_search env (clean_for_search (lower_case env) (transcript env)) (strip q) = Inr results \<and>
         run env h =
           finish_up env (sanitize_history h @ [\<lparr>role = User, content = transcript env\<rparr>])
             (concat (leg2_tokens env
                (sanitize_history h @ [\<lparr>role = User, content = transcript env\<rparr>] @
                   [\<lparr>role = Assistant, content = full_response (llm_producer (leg1_tokens env))\<rparr>,
                    \<lparr>role = User, content = search_prompt (strip q) results\<rparr>])))))"
proof -
  have a: "\<exists>s. web_search prov query = Inr s" by (rule web_search_Inr)
  have b: "prov query = Results [] \<longrightarrow> web_search prov query = Inr (str ''No results found.'')"
    by (simp add: web_search_def web_search_try_def)
  have c: "\<forall>rs. prov query = Results rs \<and> rs \<noteq> [] \<and> (\<forall>r\<in>set rs. has_title_and_body r) \<longrightarrow>
      web_search prov query = Inr (join [newline] (map summary_line rs))"
    using web_search_summaries by blast
  have d: "\<forall>rs. prov query = Results rs \<and> (\<exists>r\<in>set rs. \<not> has_title_and_body r) \<longrightarrow>
      web_search prov query = Inr (str ''Search error: '' @ str [CHR 0x27] @ str ''title'' @ str [CHR 0x27]) \<or>
      web_search prov query = Inr (str ''Search error: '' @ str [CHR 0x27] @ str ''body'' @ str [CHR 0x27])"
    using web_search_key_error by blast
  have e: "\<forall>m. prov query = Failure m \<longrightarrow> web_search prov query = Inr (str ''Search error: '' @ m)"
    by (simp add: web_search_def web_search_try_def exception_text_def)
  have f: "\<exists>s. resolve_search env clean_query search_query = Inr s" by (rule resolve_search_Inr)
  have g: "\<forall>m. (\<forall>q. provider env q = Failure m) \<longrightarrow>
      resolve_search env clean_query search_query = Inr (str ''Search error: '' @ m)"
    using resolve_search_failure by blast
  have h: "\<exists>pre post. search_prompt search_query search_results = pre @ search_results @ post"
    by (rule search_prompt_holds_results)
  have i: "\<forall>q h. is_search (llm_producer (leg1_tokens env)) \<and>
      search_directive (full_response (llm_producer (leg1_tokens env))) = Some q \<and>
      interrupted env = None \<and>
      \<not> cancel_after_leg1 env \<and> \<not> cancel_after_search env \<and> \<not> cancel_after_leg2 env \<longrightarrow>
      (\<exists>results.
         resolve_search env (clean_for_search (lower_case env) (transcript env)) (strip q) = Inr results \<and>
         run env h =
           finish_up env (sanitize_history h @ [\<lparr>role = User, content = transcript env\<rparr>])
             (concat (leg2_tokens env
                (sanitize_history h @ [\<lparr>role = User, content = transcript env\<rparr>] @
                   [\<lparr>role = Assistant, content = full_response (llm_producer (leg1_tokens env))\<rparr>,
                    \<lparr>role = User, content = search_prompt (strip q) results\<rparr>]))))"
  proof (intro allI impI)
    fix q h
    assume p: "is_search (llm_producer (leg1_tokens env)) \<and>
      search_directive (full_response (llm_producer (leg1_tokens env))) = Some q \<and>
      interrupted env = None \<and>
      \<not> cancel_after_leg1 env \<and> \<not> cancel_after_search env \<and> \<not> cancel_after_leg2 env"
    obtain results where r: "resolve_search env (clean_for_search (lower_case env) (transcript env)) (strip q) = Inr results"
      using resolve_search_Inr by blast
    with p run_search_branch [of env q results h]
    show "\<exists>results.
         resolve_search env (clean_for_search (lower_case env) (transcript env)) (strip q) = Inr results \<and>
         run env h =
           finish_up env (sanitize_history h @ [\<lparr>role = User, content = transcript env\<rparr>])
             (concat (leg2_tokens env
                (sanitize_history h @ [\<lparr>role = User, content = transcript env\<rparr>] @
                   [\<lparr>role = Assistant, content = full_response (llm_producer (leg1_tokens env))\<rparr>,
                    \<lparr>role = User, content = search_prompt (strip q) results\<rparr>])))"
      by blast
  qed
  from a b c d e f g h i show ?thesis by (intro conjI)
qed


theorem web_search_never_raises_witness:
  "web_search (\<lambda>q. Failure (str ''down'')) (str ''mumbai weather'') = Inr (str ''Search error: down'') \<and>
   web_search (\<lambda>q. Results [[(str ''title'', str ''T''), (str ''href'', str ''u''), (str ''body'', str ''B'')]])
     (str ''mumbai weather'') = Inr (str ''- T: B'') \<and>
   run failing_search_turn (conversation_history_init (str ''prompt'')) =
     (Committed, [\<lparr>role = System, content = str ''prompt''\<rparr>, \<lparr>role = User, content = str ''weather''\<rparr>,
                  \<lparr>role = Assistant,
                   content = search_prompt (str ''mumbai weather'') (str ''Search error: down'')\<rparr>])"
proof -
  note t = web_search_never_raises [of "\<lambda>q. Failure (str ''down'')" "str ''mumbai weather''"
      failing_search_turn "str ''weather''" "str ''mumbai weather''" "str ''Search error: down''"]
  from t have "\<forall>m. (\<lambda>q. Failure (str ''down'')) (str ''mumbai weather'') = Failure m \<longrightarrow>
      web_search (\<lambda>q. Failure (str ''down'')) (str ''mumbai weather'') = Inr (str ''Search error: '' @ m)"
    by (elim conjE)
  then have w: "web_search (\<lambda>q. Failure (str ''down'')) (str ''mumbai weather'') = Inr (str ''Search error: down'')"
    by (simp add: str_def)
  note u = web_search_never_raises [of
      "\<lambda>q. Results [[(str ''title'', str ''T''), (str ''href'', str ''u''), (str ''body'', str ''B'')]]"
      "str ''mumbai weather''" failing_search_turn "str ''weather''" "str ''mumbai weather''" "[]"]
  from u have "\<forall>rs. (\<lambda>q. Results [[(str ''title'', str ''T''), (str ''href'', str ''u''), (str ''body'', str ''B'')]])
        (str ''mumbai weather'') = Results rs \<and> rs \<noteq> [] \<and> (\<forall>r\<in>set rs. has_title_and_body r) \<longrightarrow>
      web_search (\<lambda>q. Results [[(str ''title'', str ''T''), (str ''href'', str ''u''), (str ''body'', str ''B'')]])
        (str ''mumbai weather'') = Inr (join [newline] (map summary_line rs))"
    by (elim conjE)
  then have v: "web_search (\<lambda>q. Results [[(str ''title'', str ''T''), (str ''href'', str ''u''), (str ''body'', str ''B'')]])
     (str ''mumbai weather'') = Inr (str ''- T: B'')"
    by (simp add: has_title_and_body_def summary_line_def str_def)
  have env: "leg1_tokens failing_search_turn = [str ''[SEARCH: mumbai weather]'']"
    "leg2_tokens failing_search_turn = (\<lambda>messages. [content (last messages)])"
    "transcript failing_search_turn = str ''weather''"
    "provider failing_search_turn = (\<lambda>q. Failure (str ''down''))"
    "interrupted failing_search_turn = None" "\<not> cancel_after_leg1 failing_search_turn"
    "\<not> cancel_after_search failing_search_turn" "\<not> cancel_after_leg2 failing_search_turn"
    "\<not> cancel_at_finish failing_search_turn"
    by (simp_all add: failing_search_turn_def plain_turn_def)
  have st: "is_search (llm_producer [str ''[SEARCH: mumbai weather]''])"
    "full_response (llm_producer [str ''[SEARCH: mumbai weather]'']) = str ''[SEARCH: mumbai weather]''"
    by (simp_all add: producer_eval text_eval)
  have dir: "search_directive (str ''[SEARCH: mumbai weather]'') = Some (str ''mumbai weather'')"
    by (simp add: text_eval)
  have sq: "strip (str ''mumbai weather'') = str ''mumbai weather''"
    by (simp add: text_eval)
  have rs: "\<And>cq. resolve_search failing_search_turn cq (str ''mumbai weather'') = Inr (str ''Search error: down'')"
    using resolve_search_failure [of failing_search_turn "str ''down''"] env(4) by (simp add: str_def)
  from t have "\<forall>q h. is_search (llm_producer (leg1_tokens failing_search_turn)) \<and>
      search_directive (full_response (llm_producer (leg1_tokens failing_search_turn))) = Some q \<and>
      interrupted failing_search_turn = None \<and>
      \<not> cancel_after_leg1 failing_search_turn \<and> \<not> cancel_after_search failing_search_turn \<and>
      \<not> cancel_after_leg2 failing_search_turn \<longrightarrow>
      (\<exists>results.
         resolve_search failing_search_turn
           (clean_for_search (lower_case failing_search_turn) (transcript failing_search_turn)) (strip q) = Inr results \<and>
         run failing_search_turn h =
           finish_up failing_search_turn
             (sanitize_history h @ [\<lparr>role = User, content = transcript failing_search_turn\<rparr>])
             (concat (leg2_tokens failing_search_turn
                (sanitize_history h @ [\<lparr>role = User, content = transcript failing_search_turn\<rparr>] @
                   [\<lparr>role = Assistant, content = full_response (llm_producer (leg1_tokens failing_search_turn))\<rparr>,
                    \<lparr>role = User, content = search_prompt (strip q) results\<rparr>]))))"
    by (elim conjE)
  then have "\<exists>results.
         resolve_search failing_search_turn
           (clean_for_search (lower_case failing_search_turn) (str ''weather'')) (str ''mumbai weather'') = Inr results \<and>
         run failing_search_turn (conversation_history_init (str ''prompt'')) =
           finish_up failing_search_turn
             (sanitize_history (conversation_history_init (str ''prompt'')) @ [\<lparr>role = User, content = str ''weather''\<rparr>])
             (search_prompt (str ''mumbai weather'') results)"
    using env st dir sq by simp
  then have "run failing_search_turn (conversation_history_init (str ''prompt'')) =
           finish_up failing_search_turn
             (sanitize_history (conversation_history_init (str ''prompt'')) @ [\<lparr>role = User, content = str ''weather''\<rparr>])
             (search_prompt (str ''mumbai weather'') (str ''Search error: down''))"
    using rs by auto
  moreover have "search_prompt (str ''mumbai weather'') (str ''Search error: down'') \<noteq> []"
    by (simp add: search_prompt_def str_def)
  ultimately have "run failing_search_turn (conversation_history_init (str ''prompt'')) =
     (Committed, [\<lparr>role = System, content = str ''prompt''\<rparr>, \<lparr>role = User, content = str ''weather''\<rparr>,
                  \<lparr>role = Assistant,
                   content = search_prompt (str ''mumbai weather'') (str ''Search error: down'')\<rparr>])"
    using env by (simp add: finish_up_def conversation_history_init_def sanitize_history_def)
  with w v show ?thesis by simp
qed


end
